theory Spec2Isabelle
  imports Complex_Main "HOL-Library.Char_ord" "HOL-Library.List_Lexorder"
    "HOL-Library.Product_Lexorder"
begin

section \<open>Python values and errors\<close>

text \<open>
  The module \<^verbatim>\<open>cartman/text.py\<close> is a set of pure functions over Python strings.
  Strings are modelled as \<^typ>\<open>string\<close>; the model follows Python 3 on ASCII text
  (characters below 128). Every exception the source can raise is a value of
  \<open>error\<close>: the two exceptions of the package (\<^verbatim>\<open>exceptions.InvalidParameter\<close>,
  \<^verbatim>\<open>exceptions.FatalError\<close>, each carrying its message) and the library exceptions
  that can escape (\<^verbatim>\<open>ValueError\<close>, \<^verbatim>\<open>TypeError\<close>, \<^verbatim>\<open>KeyError\<close>,
  \<^verbatim>\<open>re.error\<close>).
  \<open>NotModelled\<close> marks an input that leaves the fragment of the standard library
  written out below (for instance a regular expression with a back-reference);
  nothing is stated about the program there.
\<close>

datatype error =
    InvalidParameter string
  | FatalError string
  | ValueError
  | TypeError
  | KeyError
  | RegexError
  | NotModelled

text \<open>The dynamically typed values that reach \<^verbatim>\<open>validate_id\<close> and that
  \<^verbatim>\<open>json.loads\<close> returns (floats are left out).\<close>

datatype pyval =
    PyNone
  | PyBool bool
  | PyInt int
  | PyStr string
  | PyList "pyval list"
  | PyDict "(string \<times> pyval) list"

section \<open>Character classes\<close>

definition is_digit :: "char \<Rightarrow> bool" where
  "is_digit c = (CHR ''0'' \<le> c \<and> c \<le> CHR ''9'')"

definition is_upper :: "char \<Rightarrow> bool" where
  "is_upper c = (CHR ''A'' \<le> c \<and> c \<le> CHR ''Z'')"

definition is_lower :: "char \<Rightarrow> bool" where
  "is_lower c = (CHR ''a'' \<le> c \<and> c \<le> CHR ''z'')"

text \<open>\<^verbatim>\<open>str.isspace\<close> on ASCII: tab, line feed, vertical tab, form feed, carriage
  return, the four separators 28..31 and the space.\<close>

definition is_space :: "char \<Rightarrow> bool" where
  "is_space c = (of_char c \<in> {9, 10, 11, 12, 13, 28, 29, 30, 31, 32 :: nat})"

definition digit_of :: "char \<Rightarrow> nat" where
  "digit_of c = of_char c - of_char CHR ''0''"

section \<open>The builtin \<^verbatim>\<open>int()\<close>\<close>






section \<open>\<^verbatim>\<open>validate_id\<close>\<close>


text \<open>The decimal value of a digit string, read left to right.\<close>

definition decimal :: "string \<Rightarrow> nat" where
  "decimal ds = foldl (\<lambda>a c. 10 * a + digit_of c) 0 ds"

section \<open>\<^verbatim>\<open>difflib.get_close_matches\<close>\<close>

text \<open>
  \<^verbatim>\<open>fuzzy_find\<close> calls \<^verbatim>\<open>difflib.get_close_matches(value, options.keys())\<close> with
  the defaults \<^verbatim>\<open>n=3\<close> and \<^verbatim>\<open>cutoff=0.6\<close>. That function scores every
  possibility \<open>x\<close> with a \<^verbatim>\<open>SequenceMatcher\<close> whose first sequence \<open>a\<close> is \<open>x\<close>
  and whose second sequence \<open>b\<close> is the word; no junk predicate is given and
  \<^verbatim>\<open>autojunk\<close> is on. The functions below follow the library's methods one by one.

  \<^verbatim>\<open>__chain_b\<close> indexes \<open>b\<close>: \<open>b2j[elt]\<close> lists the positions of \<open>elt\<close> in \<open>b\<close>, in
  increasing order; when \<open>b\<close> has at least 200 elements, an element occurring more than
  \<open>n // 100 + 1\<close> times is popular and loses its entry. \<open>b2j b elt\<close> is
  \<^verbatim>\<open>b2j.get(elt, [])\<close>. The set \<^verbatim>\<open>bjunk\<close> is empty, since \<^verbatim>\<open>isjunk\<close> is
  \<^verbatim>\<open>None\<close>.
\<close>

type_synonym block = "nat \<times> nat \<times> nat"

definition b2j :: "string \<Rightarrow> char \<Rightarrow> nat list" where
  "b2j b elt =
     (let idxs = filter (\<lambda>j. b ! j = elt) [0..<length b]; n = length b
      in if 200 \<le> n \<and> n div 100 + 1 < length idxs then [] else idxs)"

definition isbjunk :: "string \<Rightarrow> char \<Rightarrow> bool" where
  "isbjunk b elt = False"

text \<open>
  \<^verbatim>\<open>find_longest_match\<close>. The inner loop runs over the positions \<open>j\<close> of \<open>a[i]\<close> in
  \<open>b\<close> (\<^verbatim>\<open>continue\<close> below \<open>blo\<close>, \<^verbatim>\<open>break\<close> from \<open>bhi\<close> on);
  \<^verbatim>\<open>j2len.get(j-1, 0)\<close> is 0 at \<open>j = 0\<close>, where the key \<open>-1\<close> is never stored, and
  the block start \<^verbatim>\<open>i-k+1\<close> is written \<open>i + 1 - k\<close> for the natural numbers.
  The outer loop runs over \<^verbatim>\<open>range(alo, ahi)\<close>. Then the four \<^verbatim>\<open>while\<close> loops
  extend the block to the left and to the right, first over elements that are not
  junk and then over junk.
\<close>

fun flm_inner ::
  "nat \<Rightarrow> nat \<Rightarrow> nat \<Rightarrow> (nat \<rightharpoonup> nat) \<Rightarrow> nat list \<Rightarrow> (nat \<rightharpoonup> nat) \<times> block
     \<Rightarrow> (nat \<rightharpoonup> nat) \<times> block" where
  "flm_inner i blo bhi j2len [] st = st"
| "flm_inner i blo bhi j2len (j # js) (newj2len, besti, bestj, bestsize) =
     (if j < blo then flm_inner i blo bhi j2len js (newj2len, besti, bestj, bestsize)
      else if bhi \<le> j then (newj2len, besti, bestj, bestsize)
      else
        let k = (if j = 0 then 0 else case j2len (j - 1) of None \<Rightarrow> 0 | Some v \<Rightarrow> v) + 1
        in if bestsize < k
           then flm_inner i blo bhi j2len js (newj2len(j \<mapsto> k), i + 1 - k, j + 1 - k, k)
           else flm_inner i blo bhi j2len js (newj2len(j \<mapsto> k), besti, bestj, bestsize))"

fun flm_outer ::
  "string \<Rightarrow> string \<Rightarrow> nat \<Rightarrow> nat \<Rightarrow> nat list \<Rightarrow> (nat \<rightharpoonup> nat) \<times> block \<Rightarrow> block" where
  "flm_outer a b blo bhi [] (j2len, best) = best"
| "flm_outer a b blo bhi (i # is) (j2len, best) =
     flm_outer a b blo bhi is (flm_inner i blo bhi j2len (b2j b (a ! i)) (Map.empty, best))"

function extend_left :: "bool \<Rightarrow> string \<Rightarrow> string \<Rightarrow> nat \<Rightarrow> nat \<Rightarrow> block \<Rightarrow> block" where
  "extend_left junk a b alo blo (besti, bestj, bestsize) =
     (if alo < besti \<and> blo < bestj \<and> isbjunk b (b ! (bestj - 1)) = junk
         \<and> a ! (besti - 1) = b ! (bestj - 1)
      then extend_left junk a b alo blo (besti - 1, bestj - 1, bestsize + 1)
      else (besti, bestj, bestsize))"
  by pat_completeness auto
termination
  by (relation "measure (\<lambda>(junk, a, b, alo, blo, besti, bestj, bestsize). besti)") auto

function extend_right :: "bool \<Rightarrow> string \<Rightarrow> string \<Rightarrow> nat \<Rightarrow> nat \<Rightarrow> block \<Rightarrow> block" where
  "extend_right junk a b ahi bhi (besti, bestj, bestsize) =
     (if besti + bestsize < ahi \<and> bestj + bestsize < bhi
         \<and> isbjunk b (b ! (bestj + bestsize)) = junk
         \<and> a ! (besti + bestsize) = b ! (bestj + bestsize)
      then extend_right junk a b ahi bhi (besti, bestj, bestsize + 1)
      else (besti, bestj, bestsize))"
  by pat_completeness auto
termination
  by (relation "measure (\<lambda>(junk, a, b, ahi, bhi, besti, bestj, bestsize). ahi - (besti + bestsize))") auto

definition find_longest_match :: "string \<Rightarrow> string \<Rightarrow> nat \<Rightarrow> nat \<Rightarrow> nat \<Rightarrow> nat \<Rightarrow> block" where
  "find_longest_match a b alo ahi blo bhi =
     (let best = flm_outer a b blo bhi [alo..<ahi] (Map.empty, (alo, blo, 0));
          best = extend_left False a b alo blo best;
          best = extend_right False a b ahi bhi best;
          best = extend_left True a b alo blo best;
          best = extend_right True a b ahi bhi best
      in best)"

declare extend_left.simps [simp del] extend_right.simps [simp del]

text \<open>
  \<^verbatim>\<open>get_matching_blocks\<close>: the work list \<^verbatim>\<open>queue\<close> is popped at its end; a
  block of positive size is recorded and the parts of the rectangle to its left and to
  its right are queued.
\<close>

function mb_loop ::
  "string \<Rightarrow> string \<Rightarrow> (nat \<times> nat \<times> nat \<times> nat) list \<Rightarrow> block list \<Rightarrow> block list" where
  "mb_loop a b queue matching_blocks =
     (if queue = [] then matching_blocks
      else
        case last queue of (alo, ahi, blo, bhi) \<Rightarrow>
          (case find_longest_match a b alo ahi blo bhi of (i, j, k) \<Rightarrow>
             if k \<noteq> 0
             then mb_loop a b
                    (butlast queue
                      @ (if alo < i \<and> blo < j then [(alo, i, blo, j)] else [])
                      @ (if i + k < ahi \<and> j + k < bhi then [(i + k, ahi, j + k, bhi)] else []))
                    (matching_blocks @ [(i, j, k)])
             else mb_loop a b (butlast queue) matching_blocks))"
  by pat_completeness auto


text \<open>Two auxiliary notions for the termination of the work list: the bounds that the
  inner loop keeps along \<open>a\<close>, and the weight of a queue.\<close>

definition a_ok :: "nat \<Rightarrow> nat \<Rightarrow> (nat \<rightharpoonup> nat) \<times> block \<Rightarrow> bool" where
  "a_ok alo i st =
     (case st of (m, besti, bestj, bestsize) \<Rightarrow>
        (\<forall>j v. m j = Some v \<longrightarrow> v + alo \<le> i) \<and> alo \<le> besti \<and> besti + bestsize \<le> i)"

definition queue_weight :: "(nat \<times> nat \<times> nat \<times> nat) list \<Rightarrow> nat" where
  "queue_weight queue = sum_list (map (\<lambda>(alo, ahi, blo, bhi). 2 * (ahi - alo) + 1) queue)"

text \<open>
  After the loop \<^verbatim>\<open>get_matching_blocks\<close> sorts the blocks, merges adjacent ones
  and appends the sentinel \<open>(la, lb, 0)\<close>.
\<close>

fun collapse :: "block list \<Rightarrow> block \<Rightarrow> block list \<Rightarrow> block list" where
  "collapse [] (i1, j1, k1) non_adjacent =
     (if k1 \<noteq> 0 then non_adjacent @ [(i1, j1, k1)] else non_adjacent)"
| "collapse ((i2, j2, k2) # blocks) (i1, j1, k1) non_adjacent =
     (if i1 + k1 = i2 \<and> j1 + k1 = j2 then collapse blocks (i1, j1, k1 + k2) non_adjacent
      else collapse blocks (i2, j2, k2)
             (if k1 \<noteq> 0 then non_adjacent @ [(i1, j1, k1)] else non_adjacent))"

definition get_matching_blocks :: "string \<Rightarrow> string \<Rightarrow> block list" where
  "get_matching_blocks a b =
     (let la = length a; lb = length b;
          matching_blocks = sort (mb_loop a b [(0, la, 0, lb)] [])
      in collapse matching_blocks (0, 0, 0) [] @ [(la, lb, 0)])"

text \<open>
  The three ratios are \<^verbatim>\<open>2.0 * matches / length\<close> (and \<open>1.0\<close> for two empty
  sequences). They are floating-point numbers in Python and rational numbers here.
  The program only compares them with the cutoff \<open>0.6\<close> and with each other. A
  quotient of two numbers below \<open>2^26\<close> that differs from \<open>3/5\<close>, or from another such
  quotient, differs by more than \<open>2^-53\<close>, and division rounds monotonically, so for
  all strings shorter than \<open>2^25\<close> characters the comparisons agree with the exact ones.
\<close>

definition calculate_ratio :: "nat \<Rightarrow> nat \<Rightarrow> rat" where
  "calculate_ratio matches len = (if len \<noteq> 0 then 2 * of_nat matches / of_nat len else 1)"

definition ratio :: "string \<Rightarrow> string \<Rightarrow> rat" where
  "ratio a b =
     calculate_ratio (sum_list (map (\<lambda>(i, j, k). k) (get_matching_blocks a b)))
       (length a + length b)"

text \<open>\<^verbatim>\<open>quick_ratio\<close> counts, element by element of \<open>a\<close>, how many are still
  available in \<open>b\<close>; \<open>avail\<close> may go below zero.\<close>

fun quick_loop :: "(char \<Rightarrow> nat) \<Rightarrow> string \<Rightarrow> (char \<rightharpoonup> int) \<Rightarrow> nat \<Rightarrow> nat" where
  "quick_loop fullbcount [] avail matches = matches"
| "quick_loop fullbcount (elt # a) avail matches =
     (let numb = (case avail elt of Some v \<Rightarrow> v | None \<Rightarrow> int (fullbcount elt))
      in quick_loop fullbcount a (avail(elt \<mapsto> numb - 1))
           (if 0 < numb then matches + 1 else matches))"

definition quick_ratio :: "string \<Rightarrow> string \<Rightarrow> rat" where
  "quick_ratio a b =
     calculate_ratio (quick_loop (count_list b) a Map.empty 0) (length a + length b)"

definition real_quick_ratio :: "string \<Rightarrow> string \<Rightarrow> rat" where
  "real_quick_ratio a b =
     calculate_ratio (min (length a) (length b)) (length a + length b)"

text \<open>
  \<^verbatim>\<open>
  def get_close_matches(word, possibilities, n=3, cutoff=0.6):
      result = []
      s = SequenceMatcher()
      s.set_seq2(word)
      for x in possibilities:
          s.set_seq1(x)
          if s.real_quick_ratio() >= cutoff and \
             s.quick_ratio() >= cutoff and \
             s.ratio() >= cutoff:
              result.append((s.ratio(), x))
      result = _nlargest(n, result)
      return [x for score, x in result]
  \<close>
  \<^verbatim>\<open>_nlargest(n, result)\<close> is \<^verbatim>\<open>sorted(result, reverse=True)[:n]\<close>: the pairs are
  ordered by score and then by string, largest first.
\<close>

definition cutoff :: rat where
  "cutoff = 6 / 10"

definition get_close_matches :: "string \<Rightarrow> string list \<Rightarrow> string list" where
  "get_close_matches word possibilities =
     (let result =
            map (\<lambda>x. (ratio x word, x))
              (filter (\<lambda>x. cutoff \<le> real_quick_ratio x word
                          \<and> cutoff \<le> quick_ratio x word
                          \<and> cutoff \<le> ratio x word)
                 possibilities)
      in map snd (take 3 (rev (sort result))))"

section \<open>Regular expressions\<close>

text \<open>
  The module hands six patterns to \<^verbatim>\<open>re\<close>; five are fixed and the sixth contains
  the user's value. A pattern is parsed into a syntax tree and matched by backtracking,
  as the library does. The fragment written out here has literals, \<open>.\<close>, sets
  \<open>[...]\<close> with ranges and negation, the escapes \<open>\d \D \s \S \w \W \b \A \Z\<close>, the
  control escapes and escaped punctuation, capturing groups, alternation, \<open>^\<close>, \<open>$\<close>
  and the repeats \<open>* + ?\<close> with their lazy forms. A pattern with anything else
  (\<open>{m,n}\<close>, \<open>(?...)\<close>, back-references, \<open>\B\<close>, numeric and Unicode escapes,
  possessive repeats) is answered by \<open>NotModelled\<close>; a malformed pattern by
  \<open>RegexError\<close>, Python's \<^verbatim>\<open>re.error\<close>.
\<close>

definition is_word :: "char \<Rightarrow> bool" where
  "is_word c = (is_lower c \<or> is_upper c \<or> is_digit c \<or> c = CHR ''_'')"

abbreviation (input) backslash :: char where
  "backslash \<equiv> CHR 0x5C"

abbreviation (input) newline :: char where
  "newline \<equiv> CHR 0x0A"

datatype category = Digit | Space | Word

datatype set_item = SChar char | SRange char char | SCat bool category

datatype assertion = WordBoundary | BeginString | EndString | BeginLine | EndLine

datatype rx =
    Lit char
  | AnyChar
  | InSet bool "set_item list"
  | Eps
  | Seq rx rx
  | Alt rx rx
  | Rep nat "nat option" bool rx
  | Group nat rx
  | Assert assertion

fun in_category :: "category \<Rightarrow> char \<Rightarrow> bool" where
  "in_category Digit c = is_digit c"
| "in_category Space c = is_space c"
| "in_category Word c = is_word c"

fun in_item :: "set_item \<Rightarrow> char \<Rightarrow> bool" where
  "in_item (SChar x) c = (c = x)"
| "in_item (SRange lo hi) c = (lo \<le> c \<and> c \<le> hi)"
| "in_item (SCat positive cat) c = (in_category cat c = positive)"

text \<open>
  A matcher state is the character before the current position (for \<open>\b\<close> and \<open>^\<close>),
  the input still to read and the groups captured so far. \<open>rx_match ml r st\<close> lists the
  states in which a match of \<open>r\<close> from \<open>st\<close> can end, in the order in which
  backtracking tries them; \<open>ml\<close> is the flag \<^verbatim>\<open>re.MULTILINE\<close>. A greedy repeat tries
  one more iteration before stopping and a lazy one the other way round; an iteration
  that consumes nothing ends the repetition.
\<close>

type_synonym mstate = "char option \<times> string \<times> (nat \<times> string) list"

fun set_group :: "nat \<Rightarrow> string \<Rightarrow> (nat \<times> string) list \<Rightarrow> (nat \<times> string) list" where
  "set_group n v [] = [(n, v)]"
| "set_group n v ((n', v') # gs) = (if n' = n then (n, v) # gs else (n', v') # set_group n v gs)"

definition word_opt :: "char option \<Rightarrow> bool" where
  "word_opt c = (case c of None \<Rightarrow> False | Some x \<Rightarrow> is_word x)"

fun at_holds :: "bool \<Rightarrow> assertion \<Rightarrow> char option \<Rightarrow> string \<Rightarrow> bool" where
  "at_holds ml WordBoundary prev rest =
     (word_opt prev \<noteq> word_opt (case rest of [] \<Rightarrow> None | c # _ \<Rightarrow> Some c))"
| "at_holds ml BeginString prev rest = (prev = None)"
| "at_holds ml EndString prev rest = (rest = [])"
| "at_holds ml BeginLine prev rest = (prev = None \<or> (ml \<and> prev = Some newline))"
| "at_holds ml EndLine prev rest =
     (rest = [] \<or> rest = [newline] \<or> (ml \<and> hd rest = newline))"

fun dec :: "nat option \<Rightarrow> nat option" where
  "dec None = None"
| "dec (Some n) = Some (n - 1)"

fun rx_match :: "bool \<Rightarrow> rx \<Rightarrow> mstate \<Rightarrow> mstate list" where
  "rx_match ml (Lit x) (prev, rest, gs) =
     (case rest of [] \<Rightarrow> [] | c # cs \<Rightarrow> if c = x then [(Some c, cs, gs)] else [])"
| "rx_match ml AnyChar (prev, rest, gs) =
     (case rest of [] \<Rightarrow> [] | c # cs \<Rightarrow> if c \<noteq> newline then [(Some c, cs, gs)] else [])"
| "rx_match ml (InSet negate items) (prev, rest, gs) =
     (case rest of
        [] \<Rightarrow> []
      | c # cs \<Rightarrow> if (\<exists>it\<in>set items. in_item it c) \<noteq> negate then [(Some c, cs, gs)] else [])"
| "rx_match ml Eps st = [st]"
| "rx_match ml (Seq r1 r2) st = concat (map (rx_match ml r2) (rx_match ml r1 st))"
| "rx_match ml (Alt r1 r2) st = rx_match ml r1 st @ rx_match ml r2 st"
| "rx_match ml (Group n r) (prev, rest, gs) =
     map (\<lambda>(prev', rest', gs').
            (prev', rest', set_group n (take (length rest - length rest') rest) gs'))
       (rx_match ml r (prev, rest, gs))"
| "rx_match ml (Assert a) (prev, rest, gs) = (if at_holds ml a prev rest then [(prev, rest, gs)] else [])"
| "rx_match ml (Rep lo hi greedy r) (prev, rest, gs) =
     (if hi = Some 0 then [(prev, rest, gs)]
      else
        let again = concat (map (\<lambda>(prev', rest', gs').
                       if length rest' < length rest
                       then rx_match ml (Rep (lo - 1) (dec hi) greedy r) (prev', rest', gs')
                       else [(prev', rest', gs')])
                     (rx_match ml r (prev, rest, gs)));
            stop = (if lo = 0 then [(prev, rest, gs)] else [])
        in if greedy then again @ stop else stop @ again)"


subsection \<open>Parsing a pattern\<close>

text \<open>
  The parser reads the pattern one character at a time. Its state is a mode, a stack of
  open groups (each with its number, its finished alternatives and the items of the
  current alternative; the bottom frame is the whole pattern) and the number of groups
  opened so far. A repeat operator applies to the last item; it is refused after
  nothing, after an assertion, and after another repeat (except \<open>?\<close>, which makes a
  greedy repeat lazy). Inside a set, \<open>]\<close> closes the set unless it comes first and a
  \<open>-\<close> between two characters makes a range.
\<close>

type_synonym frame = "nat \<times> rx list \<times> rx list"

datatype set_pend = NoPend | Pend set_item | Dashed set_item

datatype mode =
    Normal
  | Escape
  | GroupOpen
  | SetOpen
  | InSetMode bool "set_item list" set_pend
  | SetEscape bool "set_item list" "set_item option"

type_synonym pstate = "mode \<times> frame list \<times> nat"

fun seq_of :: "rx list \<Rightarrow> rx" where
  "seq_of [] = Eps"
| "seq_of (x # xs) = Seq x (seq_of xs)"

fun alt_of :: "rx list \<Rightarrow> rx" where
  "alt_of [] = Eps"
| "alt_of [x] = x"
| "alt_of (x # y # ys) = Alt x (alt_of (y # ys))"

definition close_frame :: "rx list \<Rightarrow> rx list \<Rightarrow> rx" where
  "close_frame alts items = alt_of (alts @ [seq_of items])"

definition is_ascii_letter :: "char \<Rightarrow> bool" where
  "is_ascii_letter c = (is_lower c \<or> is_upper c)"

definition control_escape :: "char \<Rightarrow> char option" where
  "control_escape c =
     (if c = CHR ''a'' then Some (CHR 0x07)
      else if c = CHR ''f'' then Some (CHR 0x0C)
      else if c = CHR ''n'' then Some (CHR 0x0A)
      else if c = CHR ''r'' then Some (CHR 0x0D)
      else if c = CHR ''t'' then Some (CHR 0x09)
      else if c = CHR ''v'' then Some (CHR 0x0B)
      else if c = backslash then Some backslash
      else None)"

definition category_escape :: "char \<Rightarrow> set_item option" where
  "category_escape c =
     (if c = CHR ''d'' then Some (SCat True Digit)
      else if c = CHR ''D'' then Some (SCat False Digit)
      else if c = CHR ''s'' then Some (SCat True Space)
      else if c = CHR ''S'' then Some (SCat False Space)
      else if c = CHR ''w'' then Some (SCat True Word)
      else if c = CHR ''W'' then Some (SCat False Word)
      else None)"

definition class_escape :: "char \<Rightarrow> error + set_item" where
  "class_escape c =
     (case category_escape c of
        Some it \<Rightarrow> Inr it
      | None \<Rightarrow>
          (case control_escape c of
             Some x \<Rightarrow> Inr (SChar x)
           | None \<Rightarrow>
               if c = CHR ''b'' then Inr (SChar (CHR 0x08))
               else if c \<in> set ''xuUN'' \<or> is_digit c then Inl NotModelled
               else if is_ascii_letter c then Inl RegexError
               else Inr (SChar c)))"

definition escape :: "char \<Rightarrow> error + rx" where
  "escape c =
     (case category_escape c of
        Some it \<Rightarrow> Inr (InSet False [it])
      | None \<Rightarrow>
          (case control_escape c of
             Some x \<Rightarrow> Inr (Lit x)
           | None \<Rightarrow>
               if c = CHR ''b'' then Inr (Assert WordBoundary)
               else if c = CHR ''A'' then Inr (Assert BeginString)
               else if c = CHR ''Z'' then Inr (Assert EndString)
               else if c \<in> set ''BxuUN'' \<or> is_digit c then Inl NotModelled
               else if is_ascii_letter c then Inl RegexError
               else Inr (Lit c)))"

fun push_item :: "rx \<Rightarrow> frame list \<Rightarrow> frame list" where
  "push_item x [] = []"
| "push_item x ((g, alts, items) # stack) = (g, alts, items @ [x]) # stack"

fun repeat_item :: "char \<Rightarrow> nat \<Rightarrow> nat option \<Rightarrow> frame list \<Rightarrow> error + frame list" where
  "repeat_item c lo hi [] = Inl RegexError"
| "repeat_item c lo hi ((g, alts, items) # stack) =
     (if items = [] then Inl RegexError
      else
        case last items of
          Assert a \<Rightarrow> Inl RegexError
        | Rep lo' hi' greedy r \<Rightarrow>
            if greedy \<and> c = CHR ''?'' then Inr ((g, alts, butlast items @ [Rep lo' hi' False r]) # stack)
            else if greedy \<and> c = CHR ''+'' then Inl NotModelled
            else Inl RegexError
        | x \<Rightarrow> Inr ((g, alts, butlast items @ [Rep lo hi True x]) # stack))"

fun normal_step :: "frame list \<Rightarrow> nat \<Rightarrow> char \<Rightarrow> error + pstate" where
  "normal_step stack n c =
     (if c = backslash then Inr (Escape, stack, n)
      else if c = CHR ''['' then Inr (SetOpen, stack, n)
      else if c = CHR ''*'' then
        (case repeat_item c 0 None stack of Inl e \<Rightarrow> Inl e | Inr st \<Rightarrow> Inr (Normal, st, n))
      else if c = CHR ''+'' then
        (case repeat_item c 1 None stack of Inl e \<Rightarrow> Inl e | Inr st \<Rightarrow> Inr (Normal, st, n))
      else if c = CHR ''?'' then
        (case repeat_item c 0 (Some 1) stack of Inl e \<Rightarrow> Inl e | Inr st \<Rightarrow> Inr (Normal, st, n))
      else if c = CHR ''{'' then Inl NotModelled
      else if c = CHR ''.'' then Inr (Normal, push_item AnyChar stack, n)
      else if c = CHR ''('' then Inr (GroupOpen, stack, n)
      else if c = CHR '')'' then
        (case stack of
           (g, alts, items) # parent # rest \<Rightarrow>
             Inr (Normal, push_item (Group g (close_frame alts items)) (parent # rest), n)
         | _ \<Rightarrow> Inl RegexError)
      else if c = CHR ''|'' then
        (case stack of
           (g, alts, items) # rest \<Rightarrow> Inr (Normal, (g, alts @ [seq_of items], []) # rest, n)
         | [] \<Rightarrow> Inl RegexError)
      else if c = CHR ''^'' then Inr (Normal, push_item (Assert BeginLine) stack, n)
      else if c = CHR ''$'' then Inr (Normal, push_item (Assert EndLine) stack, n)
      else Inr (Normal, push_item (Lit c) stack, n))"

definition set_range :: "set_item \<Rightarrow> set_item \<Rightarrow> error + set_item" where
  "set_range code1 code2 =
     (case (code1, code2) of
        (SChar lo, SChar hi) \<Rightarrow> if hi < lo then Inl RegexError else Inr (SRange lo hi)
      | _ \<Rightarrow> Inl RegexError)"

fun set_step :: "bool \<Rightarrow> set_item list \<Rightarrow> frame list \<Rightarrow> nat \<Rightarrow> char \<Rightarrow> error + pstate" where
  "set_step negate items stack n c =
     (if c = CHR '']'' \<and> items \<noteq> [] then Inr (Normal, push_item (InSet negate items) stack, n)
      else if c = backslash then Inr (SetEscape negate items None, stack, n)
      else Inr (InSetMode negate items (Pend (SChar c)), stack, n))"

fun parse_step :: "pstate \<Rightarrow> char \<Rightarrow> error + pstate" where
  "parse_step (Normal, stack, n) c = normal_step stack n c"
| "parse_step (Escape, stack, n) c =
     (case escape c of Inl e \<Rightarrow> Inl e | Inr x \<Rightarrow> Inr (Normal, push_item x stack, n))"
| "parse_step (GroupOpen, stack, n) c =
     (if c = CHR ''?'' then Inl NotModelled
      else normal_step ((Suc n, [], []) # stack) (Suc n) c)"
| "parse_step (SetOpen, stack, n) c =
     (if c = CHR ''^'' then Inr (InSetMode True [] NoPend, stack, n)
      else set_step False [] stack n c)"
| "parse_step (InSetMode negate items NoPend, stack, n) c = set_step negate items stack n c"
| "parse_step (InSetMode negate items (Pend code1), stack, n) c =
     (if c = CHR ''-'' then Inr (InSetMode negate items (Dashed code1), stack, n)
      else set_step negate (items @ [code1]) stack n c)"
| "parse_step (InSetMode negate items (Dashed code1), stack, n) c =
     (if c = CHR '']''
      then Inr (Normal, push_item (InSet negate (items @ [code1, SChar CHR ''-''])) stack, n)
      else if c = backslash then Inr (SetEscape negate items (Some code1), stack, n)
      else
        case set_range code1 (SChar c) of
          Inl e \<Rightarrow> Inl e
        | Inr r \<Rightarrow> Inr (InSetMode negate (items @ [r]) NoPend, stack, n))"
| "parse_step (SetEscape negate items None, stack, n) c =
     (case class_escape c of
        Inl e \<Rightarrow> Inl e
      | Inr code1 \<Rightarrow> Inr (InSetMode negate items (Pend code1), stack, n))"
| "parse_step (SetEscape negate items (Some code1), stack, n) c =
     (case class_escape c of
        Inl e \<Rightarrow> Inl e
      | Inr code2 \<Rightarrow>
          (case set_range code1 code2 of
             Inl e \<Rightarrow> Inl e
           | Inr r \<Rightarrow> Inr (InSetMode negate (items @ [r]) NoPend, stack, n)))"

fun parse_chars :: "pstate \<Rightarrow> string \<Rightarrow> error + pstate" where
  "parse_chars st [] = Inr st"
| "parse_chars st (c # cs) =
     (case parse_step st c of Inl e \<Rightarrow> Inl e | Inr st' \<Rightarrow> parse_chars st' cs)"

fun parse_finish :: "pstate \<Rightarrow> error + rx \<times> nat" where
  "parse_finish (Normal, [(g, alts, items)], n) = Inr (close_frame alts items, n)"
| "parse_finish st = Inl RegexError"

definition re_compile :: "string \<Rightarrow> error + rx \<times> nat" where
  "re_compile pattern =
     (case parse_chars (Normal, [(0, [], [])], 0) pattern of
        Inl e \<Rightarrow> Inl e
      | Inr st \<Rightarrow> parse_finish st)"


subsection \<open>\<^verbatim>\<open>re.match\<close>, \<^verbatim>\<open>re.search\<close>, \<^verbatim>\<open>re.findall\<close>\<close>

text \<open>
  A match object holds the matched text (group 0) and the captured groups; a group that
  took no part in the match has no entry and reads as \<^verbatim>\<open>None\<close>.
  \<open>first_match\<close> is one attempt at one position: the first state the matcher reaches,
  or, when \<open>must_advance\<close> is set, the first one that consumed something.
  \<open>search_from\<close> tries each position from left to right; \<open>must_advance\<close> holds for
  the first position only.
\<close>

datatype match = Match string "(nat \<times> string) list"

text \<open>The character before the current position, once \<open>pre\<close> has been read from a
  state whose previous character was \<open>p\<close>.\<close>

definition prev_after :: "char option \<Rightarrow> string \<Rightarrow> char option" where
  "prev_after p pre = (if pre = [] then p else Some (last pre))"

fun group :: "match \<Rightarrow> nat \<Rightarrow> string option" where
  "group (Match whole gs) n = (if n = 0 then Some whole else map_of gs n)"

definition first_match :: "bool \<Rightarrow> rx \<Rightarrow> bool \<Rightarrow> char option \<Rightarrow> string \<Rightarrow> mstate option" where
  "first_match ml r must_advance prev rest =
     (case filter (\<lambda>(prev', rest', gs). \<not> must_advance \<or> length rest' < length rest)
             (rx_match ml r (prev, rest, [])) of
        [] \<Rightarrow> None
      | st # _ \<Rightarrow> Some st)"

fun search_from ::
  "bool \<Rightarrow> rx \<Rightarrow> bool \<Rightarrow> char option \<Rightarrow> string \<Rightarrow> (string \<times> mstate) option" where
  "search_from ml r must_advance prev [] =
     (case first_match ml r must_advance prev [] of
        Some st \<Rightarrow> Some ([], st)
      | None \<Rightarrow> None)"
| "search_from ml r must_advance prev (c # cs) =
     (case first_match ml r must_advance prev (c # cs) of
        Some st \<Rightarrow> Some (c # cs, st)
      | None \<Rightarrow> search_from ml r False (Some c) cs)"

definition match_of :: "string \<Rightarrow> mstate \<Rightarrow> match" where
  "match_of start st =
     (case st of (prev', rest', gs) \<Rightarrow> Match (take (length start - length rest') start) gs)"

definition re_match :: "bool \<Rightarrow> string \<Rightarrow> string \<Rightarrow> error + match option" where
  "re_match ml pattern string =
     (case re_compile pattern of
        Inl e \<Rightarrow> Inl e
      | Inr (r, n) \<Rightarrow> Inr (map_option (match_of string) (first_match ml r False None string)))"

definition re_search :: "bool \<Rightarrow> string \<Rightarrow> string \<Rightarrow> error + match option" where
  "re_search ml pattern string =
     (case re_compile pattern of
        Inl e \<Rightarrow> Inl e
      | Inr (r, n) \<Rightarrow>
          Inr (map_option (\<lambda>(start, st). match_of start st) (search_from ml r False None string)))"

text \<open>
  \<^verbatim>\<open>findall\<close> searches again from the end of each match; after an empty match the
  next one must advance. For a pattern with one group, as all patterns of the module
  have, the result lists the text of that group in each match, the empty string if the
  group took no part. The result for another number of groups is not written out.
\<close>

function findall_from :: "bool \<Rightarrow> rx \<Rightarrow> bool \<Rightarrow> char option \<Rightarrow> string \<Rightarrow> string list" where
  "findall_from ml r must_advance prev rest =
     (case search_from ml r must_advance prev rest of
        None \<Rightarrow> []
      | Some (start, prev', rest', gs) \<Rightarrow>
          (case map_of gs 1 of None \<Rightarrow> [] | Some v \<Rightarrow> v)
            # findall_from ml r (length rest' = length start) prev' rest')"
  by pat_completeness auto

definition re_findall :: "bool \<Rightarrow> string \<Rightarrow> string \<Rightarrow> error + string list" where
  "re_findall ml pattern string =
     (case re_compile pattern of
        Inl e \<Rightarrow> Inl e
      | Inr (r, n) \<Rightarrow> if n = 1 then Inr (findall_from ml r False None string) else Inl NotModelled)"

section \<open>\<^verbatim>\<open>fuzzy_find\<close>\<close>

text \<open>\<^verbatim>\<open>str.lower\<close> on ASCII text.\<close>

definition lower_char :: "char \<Rightarrow> char" where
  "lower_char c = (if is_upper c then char_of (of_char c + (32 :: nat)) else c)"

definition lower :: "string \<Rightarrow> string" where
  "lower s = map lower_char s"

text \<open>
  A \<^verbatim>\<open>dict\<close> is an association list in insertion order with one entry per key:
  storing under a key that is present replaces the value and keeps the place.
  \<open>options_dict\<close> is the comprehension \<^verbatim>\<open>{opt.lower(): opt for opt in options}\<close>;
  \<open>dict_get\<close> is \<^verbatim>\<open>options[key]\<close>.
\<close>

fun dict_set :: "('k \<times> 'v) list \<Rightarrow> 'k \<Rightarrow> 'v \<Rightarrow> ('k \<times> 'v) list" where
  "dict_set [] k v = [(k, v)]"
| "dict_set ((k', v') # d) k v = (if k' = k then (k, v) # d else (k', v') # dict_set d k v)"

definition options_dict :: "string list \<Rightarrow> (string \<times> string) list" where
  "options_dict options = foldl (\<lambda>d opt. dict_set d (lower opt) opt) [] options"

definition keys :: "('k \<times> 'v) list \<Rightarrow> 'k list" where
  "keys d = map fst d"

definition dict_get :: "('k \<times> 'v) list \<Rightarrow> 'k \<Rightarrow> error + 'v" where
  "dict_get d k = (case map_of d k of None \<Rightarrow> Inl KeyError | Some v \<Rightarrow> Inr v)"

text \<open>
  The fallback loop of the source, entered with the empty list \<open>matches\<close>:
  \<^verbatim>\<open>
  for l_opt, opt in options.items():
      pattern = r".*\b%s\b.*" % value
      if re.match(pattern, l_opt):
          matches.append(l_opt)
  \<close>
  The pattern is compiled when \<^verbatim>\<open>re.match\<close> is first called, so an error of the
  pattern is raised in the first iteration and not at all for an empty dictionary.
\<close>

definition word_pattern :: "string \<Rightarrow> string" where
  "word_pattern value = ''.*'' @ [backslash] @ ''b'' @ value @ [backslash] @ ''b.*''"

fun word_matches ::
  "string \<Rightarrow> (string \<times> string) list \<Rightarrow> string list \<Rightarrow> error + string list" where
  "word_matches value [] matches = Inr matches"
| "word_matches value ((l_opt, opt) # items) matches =
     (let pattern = word_pattern value
      in case re_match False pattern l_opt of
           Inl e \<Rightarrow> Inl e
         | Inr mo \<Rightarrow>
             word_matches value items (if mo \<noteq> None then matches @ [l_opt] else matches))"

text \<open>
  \<^verbatim>\<open>
  def fuzzy_find(value, options):
      value = value.lower()
      options = {opt.lower(): opt for opt in options}

      if value in options.keys():
          return options[value]

      matches = difflib.get_close_matches(value, options.keys())

      if not matches:
          for l_opt, opt in options.items():
              pattern = r".*\b%s\b.*" % value
              if re.match(pattern, l_opt):
                  matches.append(l_opt)

      if len(matches) == 1:
          return options[matches.pop()]

      return None
  \<close>
  The result is \<open>Inr (Some opt)\<close> for a returned option, \<open>Inr None\<close> for
  \<^verbatim>\<open>None\<close> and \<open>Inl e\<close> for an exception.
\<close>

definition fuzzy_find :: "string \<Rightarrow> string list \<Rightarrow> error + string option" where
  "fuzzy_find value0 options0 =
     (let value = lower value0;
          options = options_dict options0
      in if value \<in> set (keys options) then map_sum id Some (dict_get options value)
         else
           let matches = get_close_matches value (keys options)
           in case (if matches = [] then word_matches value options matches else Inr matches) of
                Inl e \<Rightarrow> Inl e
              | Inr matches \<Rightarrow>
                  if length matches = 1 then map_sum id Some (dict_get options (last matches))
                  else Inr None)"

section \<open>\<^verbatim>\<open>json.loads\<close>\<close>

text \<open>
  The decoder of the standard library, for documents without floating-point
  numbers and without \<open>\u\<close> escapes (these are answered by \<open>NotModelled\<close>). Every
  error of the decoder is a \<^verbatim>\<open>ValueError\<close>. White space is space, tab, line feed
  and carriage return. An object becomes a dictionary, where a repeated key keeps its
  first place and its last value. The parser recurses into arrays and objects with a
  counter that starts above the length of the text, so it does not run out.
\<close>

definition is_json_ws :: "char \<Rightarrow> bool" where
  "is_json_ws c = (of_char c \<in> {32, 9, 10, 13 :: nat})"

definition skip_ws :: "string \<Rightarrow> string" where
  "skip_ws s = dropWhile is_json_ws s"

definition json_escape :: "char \<Rightarrow> char option" where
  "json_escape c =
     (if c = CHR 0x22 then Some (CHR 0x22)
      else if c = backslash then Some backslash
      else if c = CHR ''/'' then Some CHR ''/''
      else if c = CHR ''b'' then Some (CHR 0x08)
      else if c = CHR ''f'' then Some (CHR 0x0C)
      else if c = CHR ''n'' then Some (CHR 0x0A)
      else if c = CHR ''r'' then Some (CHR 0x0D)
      else if c = CHR ''t'' then Some (CHR 0x09)
      else None)"

text \<open>The text of a string, read after its opening quote.\<close>

fun json_string :: "string \<Rightarrow> string \<Rightarrow> error + string \<times> string" where
  "json_string [] acc = Inl ValueError"
| "json_string [c] acc = (if c = CHR 0x22 then Inr (acc, []) else Inl ValueError)"
| "json_string (c # e # es) acc =
     (if c = CHR 0x22 then Inr (acc, e # es)
      else if c = backslash then
        (case json_escape e of
           Some x \<Rightarrow> json_string es (acc @ [x])
         | None \<Rightarrow> if e = CHR ''u'' then Inl NotModelled else Inl ValueError)
      else if (of_char c :: nat) < 32 then Inl ValueError
      else json_string (e # es) (acc @ [c]))"

text \<open>A number matches \<open>-?(0|[1-9]\d*)\<close>, and is a float when a fraction or an
  exponent follows.\<close>

definition starts_float :: "string \<Rightarrow> bool" where
  "starts_float s =
     (case s of
        c # d # ds \<Rightarrow>
          (c = CHR ''.'' \<and> is_digit d)
          \<or> ((c = CHR ''e'' \<or> c = CHR ''E'')
              \<and> (is_digit d \<or> ((d = CHR ''+'' \<or> d = CHR ''-'') \<and> ds \<noteq> [] \<and> is_digit (hd ds))))
      | _ \<Rightarrow> False)"

definition json_digits :: "string \<Rightarrow> (string \<times> string) option" where
  "json_digits s =
     (case s of
        [] \<Rightarrow> None
      | c # cs \<Rightarrow>
          if c = CHR ''0'' then Some ([c], cs)
          else if is_digit c then Some (takeWhile is_digit s, dropWhile is_digit s)
          else None)"

definition json_number :: "string \<Rightarrow> error + pyval \<times> string" where
  "json_number s =
     (let negative = (s \<noteq> [] \<and> hd s = CHR ''-'')
      in case json_digits (if negative then tl s else s) of
           None \<Rightarrow>
             if take 3 s = ''NaN'' \<or> take 8 s = ''Infinity'' \<or> take 9 s = ''-Infinity''
             then Inl NotModelled else Inl ValueError
         | Some (ds, rest) \<Rightarrow>
             if starts_float rest then Inl NotModelled
             else Inr (PyInt (if negative then - int (decimal ds) else int (decimal ds)), rest))"

fun json_value :: "nat \<Rightarrow> string \<Rightarrow> error + pyval \<times> string"
  and json_array :: "nat \<Rightarrow> pyval list \<Rightarrow> string \<Rightarrow> error + pyval \<times> string"
  and json_object :: "nat \<Rightarrow> (string \<times> pyval) list \<Rightarrow> string \<Rightarrow> error + pyval \<times> string"
where
  "json_value 0 s = Inl NotModelled"
| "json_value (Suc fuel) s =
     (case s of
        [] \<Rightarrow> Inl ValueError
      | c # cs \<Rightarrow>
          if c = CHR 0x22 then
            (case json_string cs [] of Inl e \<Rightarrow> Inl e | Inr (str, rest) \<Rightarrow> Inr (PyStr str, rest))
          else if c = CHR ''{'' then
            (case skip_ws cs of
               [] \<Rightarrow> Inl ValueError
             | d # ds \<Rightarrow> if d = CHR ''}'' then Inr (PyDict [], ds) else json_object fuel [] (d # ds))
          else if c = CHR ''['' then
            (case skip_ws cs of
               [] \<Rightarrow> Inl ValueError
             | d # ds \<Rightarrow> if d = CHR '']'' then Inr (PyList [], ds) else json_array fuel [] (d # ds))
          else if take 4 s = ''null'' then Inr (PyNone, drop 4 s)
          else if take 4 s = ''true'' then Inr (PyBool True, drop 4 s)
          else if take 5 s = ''false'' then Inr (PyBool False, drop 5 s)
          else json_number s)"
| "json_array 0 acc s = Inl NotModelled"
| "json_array (Suc fuel) acc s =
     (case json_value fuel s of
        Inl e \<Rightarrow> Inl e
      | Inr (v, rest) \<Rightarrow>
          (case skip_ws rest of
             [] \<Rightarrow> Inl ValueError
           | d # ds \<Rightarrow>
               if d = CHR '']'' then Inr (PyList (acc @ [v]), ds)
               else if d = CHR '','' then json_array fuel (acc @ [v]) (skip_ws ds)
               else Inl ValueError))"
| "json_object 0 acc s = Inl NotModelled"
| "json_object (Suc fuel) acc s =
     (case s of
        [] \<Rightarrow> Inl ValueError
      | q # cs \<Rightarrow>
          if q \<noteq> CHR 0x22 then Inl ValueError
          else
            case json_string cs [] of
              Inl e \<Rightarrow> Inl e
            | Inr (key, rest) \<Rightarrow>
                (case skip_ws rest of
                   [] \<Rightarrow> Inl ValueError
                 | colon # after \<Rightarrow>
                     if colon \<noteq> CHR '':'' then Inl ValueError
                     else
                       case json_value fuel (skip_ws after) of
                         Inl e \<Rightarrow> Inl e
                       | Inr (v, rest2) \<Rightarrow>
                           (case skip_ws rest2 of
                              [] \<Rightarrow> Inl ValueError
                            | d # ds \<Rightarrow>
                                if d = CHR ''}'' then Inr (PyDict (dict_set acc key v), ds)
                                else if d = CHR '','' then
                                  json_object fuel (dict_set acc key v) (skip_ws ds)
                                else Inl ValueError)))"


section \<open>The extractors\<close>

text \<open>
  \<^verbatim>\<open>
  def extract_timestamp(raw_html):
      m = re.search(r"""name="ts" value="([^"]+)""", raw_html, re.MULTILINE)
      if m:
          timestamp = m.group(1)
      else:
          raise exceptions.FatalError("unable to fetch timestamp")
      return timestamp
  \<close>
  \<^verbatim>\<open>m.group(1)\<close> is a string or \<^verbatim>\<open>None\<close>, hence the option in the result.
\<close>

definition re_timestamp :: string where
  \<open>re_timestamp = ''name="ts" value="([^"]+)''\<close>

definition extract_timestamp :: "string \<Rightarrow> error + string option" where
  "extract_timestamp raw_html =
     (case re_search True re_timestamp raw_html of
        Inl e \<Rightarrow> Inl e
      | Inr None \<Rightarrow> Inl (FatalError ''unable to fetch timestamp'')
      | Inr (Some mo) \<Rightarrow> Inr (group mo 1))"

text \<open>
  \<^verbatim>\<open>
  def extract_statuses(raw_html):
      re_status = r'<input type="radio" [^<]+ name="action" value="([^"]+)'
      return re.findall(re_status, raw_html)
  \<close>
\<close>

definition re_statuses :: string where
  \<open>re_statuses = ''<input type="radio" [^<]+ name="action" value="([^"]+)''\<close>

definition extract_statuses :: "string \<Rightarrow> error + string list" where
  "extract_statuses raw_html = re_findall False re_statuses raw_html"

text \<open>
  \<^verbatim>\<open>
  def extract_status_from_ticket_page(raw_html):
      re_status = r'leave</label>[\s\n]*as (\w+)[\s\n]*<'
      m = re.search(re_status, raw_html, re.MULTILINE)
      if m:
          status = m.group(1)
      else:
          raise exceptions.FatalError("unable to fetch ticket status")
      return status
  \<close>
\<close>

definition re_status :: string where
  "re_status =
     ''leave</label>['' @ [backslash] @ ''s'' @ [backslash] @ ''n]*as ('' @ [backslash]
       @ ''w+)['' @ [backslash] @ ''s'' @ [backslash] @ ''n]*<''"

definition extract_status_from_ticket_page :: "string \<Rightarrow> error + string option" where
  "extract_status_from_ticket_page raw_html =
     (case re_search True re_status raw_html of
        Inl e \<Rightarrow> Inl e
      | Inr None \<Rightarrow> Inl (FatalError ''unable to fetch ticket status'')
      | Inr (Some mo) \<Rightarrow> Inr (group mo 1))"









text \<open>
  Three notions for stating what the status pattern finds: a string of white space, a
  non-empty string of word characters, and the reading of
  \<open>[\s\n]*as (\w+)[\s\n]*<\<close> at the start of a text, which gives the word and the
  text after the \<open><\<close>.
\<close>

definition spaces :: "string \<Rightarrow> bool" where
  "spaces ws = list_all is_space ws"

definition word_chars :: "string \<Rightarrow> bool" where
  "word_chars w = (w \<noteq> [] \<and> list_all is_word w)"

definition status_at :: "string \<Rightarrow> (string \<times> string) option" where
  "status_at s =
     (let s1 = dropWhile is_space s in
      if take 3 s1 \<noteq> ''as '' then None
      else let w = takeWhile is_word (drop 3 s1);
               s2 = dropWhile is_space (dropWhile is_word (drop 3 s1))
           in if w = [] then None
              else case s2 of
                [] \<Rightarrow> None
              | c # post \<Rightarrow> if c = CHR ''<'' then Some (w, post) else None)"

section \<open>Properties of \<^verbatim>\<open>validate_id\<close>\<close>









section \<open>The matching blocks are computed in finitely many steps\<close>

lemma flm_inner_a_ok:
  assumes "\<forall>j v. j2len j = Some v \<longrightarrow> v + alo \<le> i" and "alo \<le> i"
    and "a_ok alo (Suc i) st"
  shows "a_ok alo (Suc i) (flm_inner i blo bhi j2len js st)"
  using assms(3)
proof (induction js arbitrary: st)
  case Nil
  then show ?case by simp
next
  case (Cons j js)
  obtain new besti bestj bestsize where st: "st = (new, besti, bestj, bestsize)"
    by (cases st) auto
  let ?k = "(if j = 0 then 0 else case j2len (j - 1) of None \<Rightarrow> 0 | Some v \<Rightarrow> v) + 1"
  have k: "?k + alo \<le> Suc i"
    using assms(1,2) by (auto split: option.splits)
  have "a_ok alo (Suc i) (new(j \<mapsto> ?k), i + 1 - ?k, j + 1 - ?k, ?k)"
    using Cons.prems k unfolding st a_ok_def by auto
  moreover have "a_ok alo (Suc i) (new(j \<mapsto> ?k), besti, bestj, bestsize)"
    using Cons.prems k unfolding st a_ok_def by auto
  ultimately show ?case
    using Cons.IH Cons.prems unfolding st by (simp add: Let_def)
qed

lemma a_ok_restart:
  "a_ok alo i (m, best) \<Longrightarrow> a_ok alo (Suc i) (Map.empty, best)"
  by (cases best) (auto simp: a_ok_def)

lemma flm_outer_a_ok:
  assumes "a_ok alo i (j2len, best)" and "alo \<le> i" and "i \<le> ahi"
  shows "case flm_outer a b blo bhi [i..<ahi] (j2len, best) of
           (besti, bestj, bestsize) \<Rightarrow> alo \<le> besti \<and> besti + bestsize \<le> ahi"
  using assms
proof (induction "ahi - i" arbitrary: i j2len best)
  case 0
  then have "[i..<ahi] = []" by simp
  with 0 show ?case by (cases best) (auto simp: a_ok_def)
next
  case (Suc n)
  then have lt: "i < ahi" by simp
  then have up: "[i..<ahi] = i # [Suc i..<ahi]" by (simp add: upt_conv_Cons)
  obtain m' best' where r: "flm_inner i blo bhi j2len (b2j b (a ! i)) (Map.empty, best) = (m', best')"
    by (cases "flm_inner i blo bhi j2len (b2j b (a ! i)) (Map.empty, best)") auto
  have old: "\<forall>j v. j2len j = Some v \<longrightarrow> v + alo \<le> i"
    using Suc.prems(1) by (cases best) (auto simp: a_ok_def)
  have "a_ok alo (Suc i) (m', best')"
    using flm_inner_a_ok[OF old Suc.prems(2) a_ok_restart[OF Suc.prems(1)]] r by metis
  moreover have "n = ahi - Suc i" using Suc.hyps(2) by simp
  ultimately have "case flm_outer a b blo bhi [Suc i..<ahi] (m', best') of
           (besti, bestj, bestsize) \<Rightarrow> alo \<le> besti \<and> besti + bestsize \<le> ahi"
    using Suc.hyps(1)[of "Suc i" m' best'] Suc.prems(2) lt by simp
  then show ?case by (simp add: up r)
qed

lemma extend_left_a:
  "alo \<le> besti \<Longrightarrow>
     (case extend_left junk a b alo blo (besti, bestj, bestsize) of
        (i, j, k) \<Rightarrow> alo \<le> i \<and> i + k = besti + bestsize \<and> bestsize \<le> k)"
proof (induction junk a b alo blo "(besti, bestj, bestsize)" arbitrary: besti bestj bestsize
    rule: extend_left.induct)
  case (1 junk a b alo blo besti bestj bestsize)
  show ?case
  proof (cases "alo < besti \<and> blo < bestj \<and> isbjunk b (b ! (bestj - 1)) = junk
         \<and> a ! (besti - 1) = b ! (bestj - 1)")
    case True
    then have "alo < besti" by blast
    then have "alo \<le> besti - 1" by arith
    from "1.hyps"[OF True this] True show ?thesis
      by (subst extend_left.simps) (auto split: prod.splits)
  next
    case False
    with "1.prems" show ?thesis by (subst extend_left.simps) auto
  qed
qed

lemma extend_right_a:
  "besti + bestsize \<le> ahi \<Longrightarrow>
     (case extend_right junk a b ahi bhi (besti, bestj, bestsize) of
        (i, j, k) \<Rightarrow> i = besti \<and> i + k \<le> ahi \<and> bestsize \<le> k)"
proof (induction junk a b ahi bhi "(besti, bestj, bestsize)" arbitrary: besti bestj bestsize
    rule: extend_right.induct)
  case (1 junk a b ahi bhi besti bestj bestsize)
  show ?case
  proof (cases "besti + bestsize < ahi \<and> bestj + bestsize < bhi
         \<and> isbjunk b (b ! (bestj + bestsize)) = junk
         \<and> a ! (besti + bestsize) = b ! (bestj + bestsize)")
    case True
    then have "besti + bestsize < ahi" by blast
    then have "besti + (bestsize + 1) \<le> ahi" by arith
    from "1.hyps"[OF True this] True show ?thesis
      by (subst extend_right.simps) (auto split: prod.splits)
  next
    case False
    with "1.prems" show ?thesis by (subst extend_right.simps) auto
  qed
qed

lemma find_longest_match_bounds:
  assumes "alo \<le> ahi" and "find_longest_match a b alo ahi blo bhi = (i, j, k)"
  shows "alo \<le> i \<and> i + k \<le> ahi"
proof -
  obtain i0 j0 k0 where s0: "flm_outer a b blo bhi [alo..<ahi] (Map.empty, (alo, blo, 0)) = (i0, j0, k0)"
    using prod_cases3 by blast
  have "a_ok alo alo (Map.empty, (alo, blo, 0))" by (simp add: a_ok_def)
  from flm_outer_a_ok[OF this _ assms(1), where a=a and b=b and blo=blo and bhi=bhi] s0
  have b0: "alo \<le> i0" "i0 + k0 \<le> ahi" by auto
  obtain i1 j1 k1 where s1: "extend_left False a b alo blo (i0, j0, k0) = (i1, j1, k1)"
    using prod_cases3 by blast
  from extend_left_a[OF b0(1), where junk=False and a=a and b=b and blo=blo and bestj=j0 and bestsize=k0] s1 b0
  have b1: "alo \<le> i1" "i1 + k1 \<le> ahi" by auto
  obtain i2 j2 k2 where s2: "extend_right False a b ahi bhi (i1, j1, k1) = (i2, j2, k2)"
    using prod_cases3 by blast
  from extend_right_a[OF b1(2), where junk=False and a=a and b=b and bhi=bhi and bestj=j1] s2 b1
  have b2: "alo \<le> i2" "i2 + k2 \<le> ahi" by auto
  obtain i3 j3 k3 where s3: "extend_left True a b alo blo (i2, j2, k2) = (i3, j3, k3)"
    using prod_cases3 by blast
  from extend_left_a[OF b2(1), where junk=True and a=a and b=b and blo=blo and bestj=j2 and bestsize=k2] s3 b2
  have b3: "alo \<le> i3" "i3 + k3 \<le> ahi" by auto
  obtain i4 j4 k4 where s4: "extend_right True a b ahi bhi (i3, j3, k3) = (i4, j4, k4)"
    using prod_cases3 by blast
  from extend_right_a[OF b3(2), where junk=True and a=a and b=b and bhi=bhi and bestj=j3] s4 b3
  have b4: "alo \<le> i4" "i4 + k4 \<le> ahi" by auto
  have "find_longest_match a b alo ahi blo bhi = (i4, j4, k4)"
    unfolding find_longest_match_def Let_def s0 s1 s2 s3 s4 by (rule refl)
  with assms(2) b4 show ?thesis by simp
qed

lemma find_longest_match_empty:
  assumes "ahi \<le> alo" and "find_longest_match a b alo ahi blo bhi = (i, j, k)"
  shows "k = 0"
proof -
  have "[alo..<ahi] = []" using assms(1) by simp
  then show ?thesis using assms
    by (simp add: find_longest_match_def extend_left.simps extend_right.simps)
qed

lemma queue_weight_butlast:
  "queue \<noteq> [] \<Longrightarrow> last queue = (alo, ahi, blo, bhi) \<Longrightarrow>
     queue_weight queue = queue_weight (butlast queue) + 2 * (ahi - alo) + 1"
proof -
  assume "queue \<noteq> []" "last queue = (alo, ahi, blo, bhi)"
  then have "queue = butlast queue @ [(alo, ahi, blo, bhi)]"
    by (metis append_butlast_last_id)
  then have "queue_weight queue = queue_weight (butlast queue @ [(alo, ahi, blo, bhi)])"
    by simp
  then show ?thesis by (simp add: queue_weight_def)
qed

lemma queue_weight_simps:
  "queue_weight [] = 0"
  "queue_weight [(alo, ahi, blo, bhi)] = 2 * (ahi - alo) + 1"
  "queue_weight (xs @ ys) = queue_weight xs + queue_weight ys"
  by (simp_all add: queue_weight_def)

termination mb_loop
proof (relation "measure (\<lambda>(a, b, queue, blocks). queue_weight queue)", goal_cases)
  case 1
  then show ?case by simp
next
  case (2 a b queue blocks alo y ahi ya blo bhi i yc j k)
  then have q: "queue \<noteq> []" "last queue = (alo, ahi, blo, bhi)"
    and f: "find_longest_match a b alo ahi blo bhi = (i, j, k)" and k: "k \<noteq> 0"
    by auto
  have "alo < ahi"
    using find_longest_match_empty[OF _ f] k by (cases "alo < ahi") auto
  with find_longest_match_bounds[OF _ f] have "alo \<le> i" "i + k \<le> ahi" by auto
  with k show ?case
    by (auto simp add: queue_weight_butlast[OF q] queue_weight_simps)
next
  case (3 a b queue blocks alo y ahi ya blo bhi i yc j k)
  then have q: "queue \<noteq> []" "last queue = (alo, ahi, blo, bhi)" by auto
  show ?case by (simp add: queue_weight_butlast[OF q])
qed

declare mb_loop.simps [simp del]

section \<open>Properties of the matcher\<close>

text \<open>The equation of a repeat unfolds into itself; it is applied by hand.\<close>

lemmas rx_match_Rep = rx_match.simps(9)
declare rx_match.simps(9) [simp del]

lemma rx_match_Rep_mem:
  "x \<in> set (rx_match ml (Rep lo hi greedy r) (prev, rest, gs)) \<longleftrightarrow>
     (if hi = Some 0 then x = (prev, rest, gs)
      else (lo = 0 \<and> x = (prev, rest, gs))
         \<or> (\<exists>p1 s1 g1. (p1, s1, g1) \<in> set (rx_match ml r (prev, rest, gs))
              \<and> (if length s1 < length rest
                   then x \<in> set (rx_match ml (Rep (lo - 1) (dec hi) greedy r) (p1, s1, g1))
                   else x = (p1, s1, g1))))"
  by (subst rx_match_Rep) (auto simp: Let_def split: if_splits)

lemma rx_match_suffix:
  "(prev', rest', gs') \<in> set (rx_match ml r (prev, rest, gs)) \<Longrightarrow> \<exists>w. rest = w @ rest'"
proof (induction ml r "(prev, rest, gs)" arbitrary: prev rest gs prev' rest' gs' rule: rx_match.induct)
  case (1 ml x prev rest gs)
  then show ?case by (auto split: list.splits if_splits)
next
  case (2 ml prev rest gs)
  then show ?case by (auto split: list.splits if_splits)
next
  case (3 ml negate items prev rest gs)
  then show ?case by (auto split: list.splits if_splits)
next
  case (4 ml prev rest gs)
  then show ?case by auto
next
  case (5 ml r1 r2 prev rest gs)
  from "5.prems" obtain p1 s1 g1 where
    a: "(p1, s1, g1) \<in> set (rx_match ml r1 (prev, rest, gs))"
    and b: "(prev', rest', gs') \<in> set (rx_match ml r2 (p1, s1, g1))"
    by auto
  from "5.hyps"(1)[OF a] obtain w1 where "rest = w1 @ s1" by blast
  moreover from "5.hyps"(2)[OF a b] obtain w2 where "s1 = w2 @ rest'" by blast
  ultimately have "rest = (w1 @ w2) @ rest'" by simp
  then show ?case by blast
next
  case (6 ml r1 r2 prev rest gs)
  then show ?case by auto
next
  case (7 ml n r prev rest gs)
  then show ?case by auto
next
  case (8 ml a prev rest gs)
  then show ?case by (auto split: if_splits)
next
  case (9 ml lo hi greedy r prev rest gs)
  note mem = iffD1[OF rx_match_Rep_mem "9.prems"]
  show ?case
  proof (cases "hi = Some 0")
    case True
    with mem show ?thesis by simp
  next
    case False
    from mem False consider
      (stop) "(prev', rest', gs') = (prev, rest, gs)"
      | (again) p1 s1 g1 where "(p1, s1, g1) \<in> set (rx_match ml r (prev, rest, gs))"
          "(prev', rest', gs') \<in> set (if length s1 < length rest
              then rx_match ml (Rep (lo - 1) (dec hi) greedy r) (p1, s1, g1) else [(p1, s1, g1)])"
      by (auto split: if_splits)
    then show ?thesis
    proof cases
      case stop
      then show ?thesis by simp
    next
      case again
      from "9.hyps"(1)[OF False again(1)] obtain w1 where w1: "rest = w1 @ s1" by blast
      show ?thesis
      proof (cases "length s1 < length rest")
        case True
        with again(2) have "(prev', rest', gs') \<in> set (rx_match ml (Rep (lo - 1) (dec hi) greedy r) (p1, s1, g1))"
          by simp
        from "9.hyps"(2)[OF False again(1) refl refl True this] obtain w2 where "s1 = w2 @ rest'"
          by blast
        with w1 have "rest = (w1 @ w2) @ rest'" by simp
        then show ?thesis by blast
      next
        case False
        with again(2) w1 show ?thesis by auto
      qed
    qed
  qed
qed


lemma first_match_suffix:
  assumes "first_match ml r must_advance prev rest = Some (prev', rest', gs)"
  shows "(\<exists>w. rest = w @ rest') \<and> (must_advance \<longrightarrow> length rest' < length rest)"
proof -
  let ?keep = "\<lambda>(prev', rest', gs). \<not> must_advance \<or> length rest' < length rest"
  from assms obtain sts where "filter ?keep (rx_match ml r (prev, rest, [])) = (prev', rest', gs) # sts"
    by (auto simp: first_match_def split: list.splits)
  then have "(prev', rest', gs) \<in> set (filter ?keep (rx_match ml r (prev, rest, [])))"
    by simp
  then have "(prev', rest', gs) \<in> set (rx_match ml r (prev, rest, []))"
    and "\<not> must_advance \<or> length rest' < length rest"
    by auto
  with rx_match_suffix show ?thesis by blast
qed

lemma search_from_bounds:
  "search_from ml r must_advance prev rest = Some (start, prev', rest', gs) \<Longrightarrow>
     length rest' \<le> length start \<and> length start \<le> length rest
     \<and> (length start = length rest \<and> must_advance \<longrightarrow> length rest' < length rest)"
proof (induction rest arbitrary: must_advance prev)
  case Nil
  then have "first_match ml r must_advance prev [] = Some (prev', rest', gs)" and "start = []"
    by (auto split: option.splits)
  with first_match_suffix[of ml r must_advance prev "[]" prev' rest' gs] show ?case
    by auto
next
  case (Cons c cs)
  show ?case
  proof (cases "first_match ml r must_advance prev (c # cs)")
    case None
    with Cons.prems have "search_from ml r False (Some c) cs = Some (start, prev', rest', gs)"
      by simp
    from Cons.IH[OF this] show ?thesis by auto
  next
    case (Some st)
    with Cons.prems have "st = (prev', rest', gs)" and start: "start = c # cs"
      by auto
    with Some first_match_suffix[of ml r must_advance prev "c # cs" prev' rest' gs]
    have "(\<exists>w. c # cs = w @ rest') \<and> (must_advance \<longrightarrow> length rest' < length (c # cs))"
      by simp
    then obtain w where "c # cs = w @ rest'"
      and adv: "must_advance \<longrightarrow> length rest' < length (c # cs)" by blast
    then have "length (c # cs) = length w + length rest'"
      by (metis length_append)
    with adv start show ?thesis by auto
  qed
qed

termination findall_from
proof (relation "measure (\<lambda>(ml, r, must_advance, prev, rest).
          2 * length rest + (if must_advance then 0 else 1))", goal_cases)
  case 1
  then show ?case by simp
next
  case (2 ml r must_advance prev rest x2 start y prev' z rest' gs)
  then have "search_from ml r must_advance prev rest = Some (start, prev', rest', gs)"
    by simp
  from search_from_bounds[OF this] show ?case
    by (auto split: if_splits)
qed

declare findall_from.simps [simp del]

subsection \<open>Literals and repeated character classes\<close>

lemma rx_match_lits:
  "rx_match ml (seq_of (map Lit L @ rs)) (p, s, gs) =
     (if take (length L) s = L
      then rx_match ml (seq_of rs) (if L = [] then p else Some (last L), drop (length L) s, gs)
      else [])"
proof (induction L arbitrary: p s)
  case Nil
  then show ?case by simp
next
  case (Cons x L)
  show ?case
  proof (cases s)
    case Nil
    then show ?thesis by simp
  next
    case (Cons c cs)
    then show ?thesis using Cons.IH[of "Some c" cs] by auto
  qed
qed

lemma rev_upt_Suc_shift: "rev [Suc l..<Suc n] = map Suc (rev [l..<n])"
  unfolding map_Suc_upt[symmetric] rev_map by (rule refl)

lemma rx_match_Rep_class:
  assumes C: "\<And>p s gs. rx_match ml C (p, s, gs) =
                (case s of [] \<Rightarrow> [] | c # cs \<Rightarrow> if P c then [(Some c, cs, gs)] else [])"
  shows "rx_match ml (Rep lo None True C) (p, s, gs) =
           map (\<lambda>k. (if k = 0 then p else Some (s ! (k - 1)), drop k s, gs))
             (rev [lo..<Suc (length (takeWhile P s))])"
proof (induction s arbitrary: lo p)
  case Nil
  show ?case by (subst rx_match_Rep) (simp add: C)
next
  case (Cons c cs)
  show ?case
  proof (cases "P c")
    case False
    then show ?thesis by (subst rx_match_Rep) (simp add: C)
  next
    case True
    let ?n = "length (takeWhile P cs)"
    let ?g = "\<lambda>k. (if k = 0 then Some c else Some (cs ! (k - 1)), drop k cs, gs)"
    let ?f = "\<lambda>k. (if k = 0 then p else Some ((c # cs) ! (k - 1)), drop k (c # cs), gs)"
    have fg: "?f (Suc j) = ?g j" for j
      by (cases j) auto
    have unfold: "rx_match ml (Rep lo None True C) (p, c # cs, gs) =
        rx_match ml (Rep (lo - 1) None True C) (Some c, cs, gs)
          @ (if lo = 0 then [(p, c # cs, gs)] else [])"
      using True by (subst rx_match_Rep) (simp add: C)
    have ih: "rx_match ml (Rep (lo - 1) None True C) (Some c, cs, gs) = map ?g (rev [lo - 1..<Suc ?n])"
      by (rule Cons.IH)
    show ?thesis
    proof (cases lo)
      case 0
      have "rev [0..<Suc (Suc ?n)] = map Suc (rev [0..<Suc ?n]) @ [0]"
        by (simp add: upt_conv_Cons[of 0] rev_upt_Suc_shift del: upt_Suc)
      then have "map ?f (rev [0..<Suc (Suc ?n)]) = map ?g (rev [0..<Suc ?n]) @ [?f 0]"
        by (simp add: fg comp_def del: upt_Suc)
      with unfold ih 0 True show ?thesis by (simp del: upt_Suc)
    next
      case (Suc l)
      have "map ?f (rev [Suc l..<Suc (Suc ?n)]) = map ?g (rev [l..<Suc ?n])"
        by (simp add: rev_upt_Suc_shift fg comp_def del: upt_Suc)
      with unfold ih Suc True show ?thesis by (simp del: upt_Suc)
    qed
  qed
qed

subsection \<open>Searching from left to right\<close>

lemma prev_after_simps [simp]:
  "prev_after p [] = p"
  "prev_after p (c # pre) = prev_after (Some c) pre"
  by (simp_all add: prev_after_def)

lemma search_from_None:
  "search_from ml r False p s = None \<longleftrightarrow>
     (\<forall>pre post. s = pre @ post \<longrightarrow>
        first_match ml r False (prev_after p pre) post = None)"
proof (induction s arbitrary: p)
  case Nil
  then show ?case by (auto split: option.splits)
next
  case (Cons c cs)
  have "(\<forall>pre post. c # cs = pre @ post \<longrightarrow>
          first_match ml r False (prev_after p pre) post = None)
      \<longleftrightarrow> first_match ml r False p (c # cs) = None
        \<and> (\<forall>pre post. cs = pre @ post \<longrightarrow>
          first_match ml r False (prev_after (Some c) pre) post = None)"
    (is "?L \<longleftrightarrow> ?A \<and> ?B")
  proof (intro iffI conjI)
    assume l: ?L
    from l[rule_format, of "[]" "c # cs"] show ?A by simp
    show ?B
    proof (intro allI impI)
      fix pre post assume "cs = pre @ post"
      with l[rule_format, of "c # pre" post] show
        "first_match ml r False (prev_after (Some c) pre) post = None"
        by simp
    qed
  next
    assume ab: "?A \<and> ?B"
    show ?L
    proof (intro allI impI)
      fix pre post assume eq: "c # cs = pre @ post"
      show "first_match ml r False (prev_after p pre) post = None"
      proof (cases pre)
        case Nil
        with eq ab show ?thesis by simp
      next
        case (Cons x pre')
        with eq have "cs = pre' @ post" "x = c" by auto
        with ab[THEN conjunct2, rule_format, of pre' post] Cons show ?thesis by simp
      qed
    qed
  qed
  with Cons.IH[of "Some c"] show ?case by (auto split: option.splits)
qed

lemma search_from_Some:
  "search_from ml r False p s = Some (start, st) \<longleftrightarrow>
     (\<exists>pre. s = pre @ start
        \<and> first_match ml r False (prev_after p pre) start = Some st
        \<and> (\<forall>pre' post'. s = pre' @ post' \<and> length pre' < length pre \<longrightarrow>
              first_match ml r False (prev_after p pre') post' = None))"
  (is "?lhs p s \<longleftrightarrow> (\<exists>pre. ?R p s pre)")
proof (induction s arbitrary: p)
  case Nil
  then show ?case by (auto split: option.splits)
next
  case (Cons c cs)
  show ?case
  proof (cases "first_match ml r False p (c # cs)")
    case (Some st0)
    have "(\<exists>pre. ?R p (c # cs) pre) \<longleftrightarrow> start = c # cs \<and> st = st0"
    proof
      assume "\<exists>pre. ?R p (c # cs) pre"
      then obtain pre where R: "?R p (c # cs) pre" by blast
      have "pre = []"
      proof (rule ccontr)
        assume "pre \<noteq> []"
        then have "c # cs = [] @ (c # cs) \<and> length ([] :: string) < length pre" by simp
        with R have "first_match ml r False (prev_after p []) (c # cs) = None"
          by blast
        with Some show False by simp
      qed
      with R Some show "start = c # cs \<and> st = st0" by simp
    next
      assume "start = c # cs \<and> st = st0"
      with Some have "?R p (c # cs) []" by simp
      then show "\<exists>pre. ?R p (c # cs) pre" by blast
    qed
    with Some show ?thesis by auto
  next
    case None
    have "(\<exists>pre. ?R p (c # cs) pre) \<longleftrightarrow> (\<exists>pre. ?R (Some c) cs pre)"
    proof
      assume "\<exists>pre. ?R p (c # cs) pre"
      then obtain pre where R: "?R p (c # cs) pre" by blast
      with None obtain pre1 where pre: "pre = c # pre1"
        by (cases pre) auto
      have "?R (Some c) cs pre1"
      proof (intro conjI allI impI)
        from R pre show "cs = pre1 @ start" by simp
        from R pre show "first_match ml r False (prev_after (Some c) pre1) start = Some st"
          by simp
      next
        fix pre' post' assume a: "cs = pre' @ post' \<and> length pre' < length pre1"
        then have "c # cs = (c # pre') @ post' \<and> length (c # pre') < length pre"
          using pre by simp
        with R have "first_match ml r False (prev_after p (c # pre')) post' = None"
          by blast
        then show "first_match ml r False (prev_after (Some c) pre') post' = None"
          by simp
      qed
      then show "\<exists>pre. ?R (Some c) cs pre" by blast
    next
      assume "\<exists>pre. ?R (Some c) cs pre"
      then obtain pre1 where R: "?R (Some c) cs pre1" by blast
      have "?R p (c # cs) (c # pre1)"
      proof (intro conjI allI impI)
        from R show "c # cs = (c # pre1) @ start" by simp
        from R show "first_match ml r False (prev_after p (c # pre1)) start = Some st"
          by simp
      next
        fix pre' post' assume a: "c # cs = pre' @ post' \<and> length pre' < length (c # pre1)"
        show "first_match ml r False (prev_after p pre') post' = None"
        proof (cases pre')
          case Nil
          with a None show ?thesis by simp
        next
          case (Cons x pre2)
          with a have "cs = pre2 @ post' \<and> length pre2 < length pre1" "x = c" by auto
          with R have "first_match ml r False (prev_after (Some c) pre2) post' = None"
            by blast
          with Cons \<open>x = c\<close> show ?thesis by simp
        qed
      qed
      then show "\<exists>pre. ?R p (c # cs) pre" by blast
    qed
    with None Cons.IH[of "Some c"] show ?thesis by simp
  qed
qed

subsection \<open>A literal followed by a captured run of characters\<close>

lemma concat_map_single: "concat (map (\<lambda>x. [x]) xs) = xs"
  by (induction xs) auto

lemma rx_match_Eps_fun: "rx_match ml Eps = (\<lambda>st. [st])"
  by (rule ext) simp


lemma rev_upt_from_1: "rev [Suc 0..<Suc n] = (if n = 0 then [] else n # rev [Suc 0..<n])"
  by simp

lemma last_takeWhile_nth:
  "takeWhile P s \<noteq> [] \<Longrightarrow> s ! (length (takeWhile P s) - 1) = last (takeWhile P s)"
proof -
  assume ne: "takeWhile P s \<noteq> []"
  have "last (takeWhile P s) = takeWhile P s ! (length (takeWhile P s) - 1)"
    using ne by (rule last_conv_nth)
  also have "\<dots> = s ! (length (takeWhile P s) - 1)"
    using ne by (intro takeWhile_nth) simp
  finally show ?thesis by simp
qed

lemma rx_match_group_class:
  assumes C: "\<And>p s gs. rx_match ml C (p, s, gs) =
                (case s of [] \<Rightarrow> [] | c # cs \<Rightarrow> if P c then [(Some c, cs, gs)] else [])"
  shows "rx_match ml (Group (Suc 0) (Seq (Rep (Suc 0) None True C) Eps)) (p, s, []) =
           map (\<lambda>k. (if k = 0 then p else Some (s ! (k - 1)), drop k s, [(Suc 0, take k s)]))
             (rev [Suc 0..<Suc (length (takeWhile P s))])"
proof -
  let ?n = "length (takeWhile P s)"
  have le: "k \<le> length s" if "k \<in> set (rev [Suc 0..<Suc ?n])" for k
  proof -
    have "?n \<le> length s" by (rule length_takeWhile_le)
    with that show ?thesis by auto
  qed
  have "rx_match ml (Group (Suc 0) (Seq (Rep (Suc 0) None True C) Eps)) (p, s, []) =
      map (\<lambda>k. (if k = 0 then p else Some (s ! (k - 1)), drop k s,
                  [(Suc 0, take (length s - length (drop k s)) s)])) (rev [Suc 0..<Suc ?n])"
    by (simp add: rx_match_Rep_class[of ml C P, OF C] rx_match_Eps_fun concat_map_single comp_def
        del: upt_Suc)
  also have "\<dots> = map (\<lambda>k. (if k = 0 then p else Some (s ! (k - 1)), drop k s, [(Suc 0, take k s)]))
             (rev [Suc 0..<Suc ?n])"
  proof (rule map_cong[OF refl])
    fix k assume "k \<in> set (rev [Suc 0..<Suc ?n])"
    then have "k \<le> length s" by (rule le)
    then have "length s - length (drop k s) = k" by simp
    then show "(if k = 0 then p else Some (s ! (k - 1)), drop k s,
                  [(Suc 0, take (length s - length (drop k s)) s)])
        = (if k = 0 then p else Some (s ! (k - 1)), drop k s, [(Suc 0, take k s)])"
      by simp
  qed
  finally show ?thesis .
qed

lemma first_match_group_class:
  assumes C: "\<And>p s gs. rx_match ml C (p, s, gs) =
                (case s of [] \<Rightarrow> [] | c # cs \<Rightarrow> if P c then [(Some c, cs, gs)] else [])"
  shows "first_match ml (Group (Suc 0) (Seq (Rep (Suc 0) None True C) Eps)) False p s =
           (if takeWhile P s \<noteq> []
            then Some (Some (last (takeWhile P s)), dropWhile P s, [(Suc 0, takeWhile P s)])
            else None)"
proof -
  let ?n = "length (takeWhile P s)"
  let ?f = "\<lambda>k. (if k = 0 then p else Some (s ! (k - 1)), drop k s, [(Suc 0, take k s)])"
  note list = rx_match_group_class[of ml C P, OF C, of p s]
  show ?thesis
  proof (cases "takeWhile P s = []")
    case True
    then show ?thesis unfolding first_match_def list by simp
  next
    case False
    then have n: "?n \<noteq> 0" by simp
    have "take ?n s = takeWhile P s" by (rule takeWhile_eq_take[symmetric])
    moreover have "drop ?n s = dropWhile P s" by (rule dropWhile_eq_drop[symmetric])
    moreover have "s ! (?n - 1) = last (takeWhile P s)"
      using False by (rule last_takeWhile_nth)
    ultimately have "?f ?n = (Some (last (takeWhile P s)), dropWhile P s, [(Suc 0, takeWhile P s)])"
      using n by simp
    moreover have "map ?f (rev [Suc 0..<Suc ?n]) = ?f ?n # map ?f (rev [Suc 0..<?n])"
      using n by (simp only: rev_upt_from_1 if_False list.map)
    ultimately have "rx_match ml (Group (Suc 0) (Seq (Rep (Suc 0) None True C) Eps)) (p, s, []) =
        (Some (last (takeWhile P s)), dropWhile P s, [(Suc 0, takeWhile P s)]) # map ?f (rev [Suc 0..<?n])"
      unfolding list by simp
    then show ?thesis using False
      unfolding first_match_def by simp
  qed
qed

lemma first_match_lits:
  "first_match ml (seq_of (map Lit K @ [r])) False p s =
     (if take (length K) s = K
      then first_match ml r False (prev_after p K) (drop (length K) s)
      else None)"
proof -
  have "rx_match ml (seq_of (map Lit K @ [r])) (p, s, []) =
      (if take (length K) s = K then rx_match ml r (prev_after p K, drop (length K) s, []) else [])"
    unfolding rx_match_lits by (simp add: rx_match_Eps_fun concat_map_single prev_after_def)
  then show ?thesis
    by (simp add: first_match_def)
qed

subsection \<open>The first field of a text\<close>

lemma starts_field_iff:
  "take (length K) s = K \<and> takeWhile P (drop (length K) s) \<noteq> []
     \<longleftrightarrow> (\<exists>c rest. s = K @ c # rest \<and> P c)"
proof
  assume a: "take (length K) s = K \<and> takeWhile P (drop (length K) s) \<noteq> []"
  then have s: "s = K @ drop (length K) s"
    by (metis append_take_drop_id)
  from a obtain c rest where d: "drop (length K) s = c # rest" and "P c"
    by (cases "drop (length K) s") (auto split: if_splits)
  with s have "s = K @ c # rest" by simp
  with \<open>P c\<close> show "\<exists>c rest. s = K @ c # rest \<and> P c" by blast
next
  assume "\<exists>c rest. s = K @ c # rest \<and> P c"
  then show "take (length K) s = K \<and> takeWhile P (drop (length K) s) \<noteq> []"
    by auto
qed

lemma takeWhile_run:
  "\<forall>c\<in>set v. P c \<Longrightarrow> post = [] \<or> \<not> P (hd post) \<Longrightarrow>
     takeWhile P (v @ post) = v \<and> dropWhile P (v @ post) = post"
  by (cases post) (auto simp: takeWhile_append dropWhile_append)

lemma search_field:
  assumes fm: "\<And>p s. first_match ml r False p s =
      (if take (length K) s = K \<and> takeWhile P (drop (length K) s) \<noteq> []
       then Some (Some (last (takeWhile P (drop (length K) s))),
                  dropWhile P (drop (length K) s),
                  [(Suc 0, takeWhile P (drop (length K) s))])
       else None)"
  shows search_field_None:
    "search_from ml r False p0 html = None \<longleftrightarrow>
       \<not> (\<exists>pre c post. html = pre @ K @ c # post \<and> P c)"
  and search_field_Some:
    "search_from ml r False p0 html = Some (start, p', rest', gs) \<longleftrightarrow>
       (\<exists>pre v. html = pre @ K @ v @ rest' \<and> start = K @ v @ rest' \<and> v \<noteq> []
          \<and> (\<forall>c\<in>set v. P c) \<and> (rest' = [] \<or> \<not> P (hd rest'))
          \<and> p' = Some (last v) \<and> gs = [(Suc 0, v)]
          \<and> (\<forall>pre' c post'. html = pre' @ K @ c # post' \<and> P c \<longrightarrow> length pre \<le> length pre'))"
proof -
  have fm_None: "first_match ml r False p s = None \<longleftrightarrow> \<not> (\<exists>c rest. s = K @ c # rest \<and> P c)" for p s
    unfolding fm starts_field_iff[symmetric] by simp
  show "search_from ml r False p0 html = None \<longleftrightarrow>
       \<not> (\<exists>pre c post. html = pre @ K @ c # post \<and> P c)"
    unfolding search_from_None fm_None by blast
  show "search_from ml r False p0 html = Some (start, p', rest', gs) \<longleftrightarrow>
       (\<exists>pre v. html = pre @ K @ v @ rest' \<and> start = K @ v @ rest' \<and> v \<noteq> []
          \<and> (\<forall>c\<in>set v. P c) \<and> (rest' = [] \<or> \<not> P (hd rest'))
          \<and> p' = Some (last v) \<and> gs = [(Suc 0, v)]
          \<and> (\<forall>pre' c post'. html = pre' @ K @ c # post' \<and> P c \<longrightarrow> length pre \<le> length pre'))"
    (is "?L \<longleftrightarrow> ?R")
  proof
    assume ?L
    then obtain pre where html: "html = pre @ start"
      and m: "first_match ml r False (prev_after p0 pre) start = Some (p', rest', gs)"
      and early: "\<forall>pre' post'. html = pre' @ post' \<and> length pre' < length pre \<longrightarrow>
              first_match ml r False (prev_after p0 pre') post' = None"
      unfolding search_from_Some by blast
    define v where "v = takeWhile P (drop (length K) start)"
    from m have k: "take (length K) start = K" and v: "v \<noteq> []"
      and res: "p' = Some (last v)" "rest' = dropWhile P (drop (length K) start)" "gs = [(Suc 0, v)]"
      unfolding fm v_def by (auto split: if_splits)
    have "start = K @ drop (length K) start" using k by (metis append_take_drop_id)
    also have "drop (length K) start = v @ rest'" unfolding res(2) v_def by simp
    finally have start: "start = K @ v @ rest'" .
    have allP: "\<forall>c\<in>set v. P c" unfolding v_def by (auto dest: set_takeWhileD)
    have stop: "rest' = [] \<or> \<not> P (hd rest')"
      unfolding res(2) using hd_dropWhile[of P "drop (length K) start"] by blast
    have first: "\<forall>pre' c post'. html = pre' @ K @ c # post' \<and> P c \<longrightarrow> length pre \<le> length pre'"
    proof (intro allI impI)
      fix pre' c post' assume a: "html = pre' @ K @ c # post' \<and> P c"
      show "length pre \<le> length pre'"
      proof (rule ccontr)
        assume "\<not> length pre \<le> length pre'"
        with early a have "first_match ml r False (prev_after p0 pre') (K @ c # post') = None"
          by simp
        with a show False unfolding fm_None by blast
      qed
    qed
    have "html = pre @ K @ v @ rest'" unfolding html by (subst start) (rule refl)
    with start v allP stop res(1,3) first show ?R
      by blast
  next
    assume ?R
    then obtain pre v where html: "html = pre @ K @ v @ rest'" and start: "start = K @ v @ rest'"
      and v: "v \<noteq> []" and allP: "\<forall>c\<in>set v. P c" and stop: "rest' = [] \<or> \<not> P (hd rest')"
      and res: "p' = Some (last v)" "gs = [(Suc 0, v)]"
      and first: "\<forall>pre' c post'. html = pre' @ K @ c # post' \<and> P c \<longrightarrow> length pre \<le> length pre'"
      by blast
    from takeWhile_run[OF allP stop] have run: "takeWhile P (v @ rest') = v" "dropWhile P (v @ rest') = rest'"
      by simp_all
    have m: "first_match ml r False (prev_after p0 pre) start = Some (p', rest', gs)"
      unfolding fm start using v run res by simp
    have early: "first_match ml r False (prev_after p0 pre') post' = None"
      if "html = pre' @ post'" "length pre' < length pre" for pre' post'
    proof (rule ccontr)
      assume "first_match ml r False (prev_after p0 pre') post' \<noteq> None"
      then obtain c rest where "post' = K @ c # rest" "P c"
        unfolding fm_None by blast
      with that(1) first have "length pre \<le> length pre'" by blast
      with that(2) show False by simp
    qed
    from html start m early show ?L
      unfolding search_from_Some by (intro exI[of _ pre]) simp
  qed
qed

section \<open>Properties of \<^verbatim>\<open>fuzzy_find\<close>\<close>

subsection \<open>The dictionary of options\<close>









text \<open>
  C10. For some inputs \<^verbatim>\<open>fuzzy_find\<close> returns neither an option nor \<^verbatim>\<open>None\<close>:
  the value is put into the fallback pattern as it is, so the value \<open>(\<close>, which
  equals no option and is near none, makes the pattern \<open>.*\b(\b.*\<close>, and compiling
  it in the fallback phase raises \<^verbatim>\<open>re.error\<close>.
\<close>

theorem fuzzy_find_regex_error:
  "lower ''('' \<notin> lower ` set [''open'', ''closed'']
   \<and> get_close_matches (lower ''('') (keys (options_dict [''open'', ''closed''])) = []
   \<and> re_compile (word_pattern (lower ''('')) = Inl RegexError
   \<and> fuzzy_find ''('' [''open'', ''closed''] = Inl RegexError"
proof -
  have a: "lower ''('' \<notin> lower ` set [''open'', ''closed'']"
    by code_simp
  have b: "get_close_matches (lower ''('') (keys (options_dict [''open'', ''closed''])) = []"
    by code_simp
  have c: "re_compile (word_pattern (lower ''('')) = Inl RegexError"
    by code_simp
  have d: "fuzzy_find ''('' [''open'', ''closed''] = Inl RegexError"
    by code_simp
  from a b c d show ?thesis by blast
qed

text \<open>
  C3, at an input where the source and the claim part. The value \<open>(fix\<close> equals no
  option of \<open>["open", "closed"]\<close> and no option is near it, so no candidate survives
  the near-miss phase; the claim has \<^verbatim>\<open>None\<close> returned, and the source raises
  \<^verbatim>\<open>re.error\<close> from the fallback, whose pattern \<open>.*\b(fix\b.*\<close> does not compile.
\<close>

theorem fuzzy_find_no_survivor_raises:
  "get_close_matches (lower ''(fix'') (keys (options_dict [''open'', ''closed''])) = []
   \<and> fuzzy_find ''(fix'' [''open'', ''closed''] = Inl RegexError"
proof -
  have a: "get_close_matches (lower ''(fix'') (keys (options_dict [''open'', ''closed''])) = []"
    by code_simp
  have b: "fuzzy_find ''(fix'' [''open'', ''closed''] = Inl RegexError"
    by code_simp
  from a b show ?thesis by blast
qed

section \<open>Properties of \<^verbatim>\<open>extract_timestamp\<close>\<close>

lemma rx_match_not_char:
  "rx_match ml (InSet True [SChar q]) (p, s, gs) =
     (case s of [] \<Rightarrow> [] | c # cs \<Rightarrow> if c \<noteq> q then [(Some c, cs, gs)] else [])"
  by (simp split: list.splits)

lemma first_match_literal_field:
  "first_match ml
     (seq_of (map Lit K @ [Group (Suc 0) (Seq (Rep (Suc 0) None True (InSet True [SChar q])) Eps)]))
     False p s =
   (if take (length K) s = K \<and> takeWhile (\<lambda>c. c \<noteq> q) (drop (length K) s) \<noteq> []
    then Some (Some (last (takeWhile (\<lambda>c. c \<noteq> q) (drop (length K) s))),
               dropWhile (\<lambda>c. c \<noteq> q) (drop (length K) s),
               [(Suc 0, takeWhile (\<lambda>c. c \<noteq> q) (drop (length K) s))])
    else None)"
proof -
  note g = first_match_group_class[of ml "InSet True [SChar q]" "\<lambda>c. c \<noteq> q", OF rx_match_not_char]
  show ?thesis
  proof (cases "take (length K) s = K")
    case True
    then show ?thesis unfolding first_match_lits g by simp
  next
    case False
    then show ?thesis unfolding first_match_lits by simp
  qed
qed

lemma compile_timestamp:
  \<open>re_compile re_timestamp =
     Inr (seq_of (map Lit ''name="ts" value="''
            @ [Group (Suc 0) (Seq (Rep (Suc 0) None True (InSet True [SChar (CHR 0x22)])) Eps)]),
          Suc 0)\<close>
  by code_simp

lemma extract_timestamp_search:
  \<open>extract_timestamp html =
     (case search_from True
             (seq_of (map Lit ''name="ts" value="''
                @ [Group (Suc 0) (Seq (Rep (Suc 0) None True (InSet True [SChar (CHR 0x22)])) Eps)]))
             False None html of
        None \<Rightarrow> Inl (FatalError ''unable to fetch timestamp'')
      | Some (start, p', rest', gs) \<Rightarrow> Inr (map_of gs (Suc 0)))\<close>
  by (simp add: extract_timestamp_def re_search_def compile_timestamp match_of_def
      split: option.splits)


text \<open>
  C5, as the source has it. \<^verbatim>\<open>extract_timestamp\<close> looks for the first place where the
  text \<open>name="ts" value="\<close> is followed by a character other than a double quote. It
  returns the characters from there up to the next double quote (or the end of the
  input), a string that is never empty, and it raises the fatal error exactly when there
  is no such place. No other outcome exists. In particular
  \<^verbatim>\<open>extract_timestamp('<input name="ts" value="16933221">') == "16933221"\<close>.
\<close>

theorem extract_timestamp_spec:
  \<open>(extract_timestamp html = Inl (FatalError ''unable to fetch timestamp'')
      \<longleftrightarrow> \<not> (\<exists>pre c post. html = pre @ ''name="ts" value="'' @ c # post \<and> c \<noteq> CHR 0x22))
   \<and> (extract_timestamp html = Inr (Some v)
      \<longleftrightarrow> (\<exists>pre post. html = pre @ ''name="ts" value="'' @ v @ post
            \<and> v \<noteq> [] \<and> (\<forall>c\<in>set v. c \<noteq> CHR 0x22) \<and> (post = [] \<or> hd post = CHR 0x22)
            \<and> (\<forall>pre' c post'. html = pre' @ ''name="ts" value="'' @ c # post' \<and> c \<noteq> CHR 0x22
                  \<longrightarrow> length pre \<le> length pre')))
   \<and> (extract_timestamp html = Inl (FatalError ''unable to fetch timestamp'')
        \<or> (\<exists>v. extract_timestamp html = Inr (Some v)))
   \<and> extract_timestamp ''<input name="ts" value="16933221">'' = Inr (Some ''16933221'')\<close>
proof -
  let ?K = \<open>''name="ts" value="''\<close>
  let ?r = "seq_of (map Lit ?K
              @ [Group (Suc 0) (Seq (Rep (Suc 0) None True (InSet True [SChar (CHR 0x22)])) Eps)])"
  let ?P = "\<lambda>c. c \<noteq> CHR 0x22"
  note none = search_field_None[of True ?r ?K ?P None html, OF first_match_literal_field]
  note some = search_field_Some[of True ?r ?K ?P None html, OF first_match_literal_field]
  have fatal: "extract_timestamp html = Inl (FatalError ''unable to fetch timestamp'')
      \<longleftrightarrow> \<not> (\<exists>pre c post. html = pre @ ?K @ c # post \<and> c \<noteq> CHR 0x22)"
  proof -
    have "extract_timestamp html = Inl (FatalError ''unable to fetch timestamp'')
        \<longleftrightarrow> search_from True ?r False None html = None"
      unfolding extract_timestamp_search by (auto split: option.splits)
    then show ?thesis unfolding none .
  qed
  have found: "extract_timestamp html = Inr (Some v)
      \<longleftrightarrow> (\<exists>pre post. html = pre @ ?K @ v @ post
            \<and> v \<noteq> [] \<and> (\<forall>c\<in>set v. c \<noteq> CHR 0x22) \<and> (post = [] \<or> hd post = CHR 0x22)
            \<and> (\<forall>pre' c post'. html = pre' @ ?K @ c # post' \<and> c \<noteq> CHR 0x22
                  \<longrightarrow> length pre \<le> length pre'))" (is "?L \<longleftrightarrow> ?R")
  proof
    assume ?L
    then obtain start p' rest' gs where
      s: "search_from True ?r False None html = Some (start, p', rest', gs)"
      and g: "map_of gs (Suc 0) = Some v"
      unfolding extract_timestamp_search by (auto split: option.splits)
    from s[unfolded some] obtain pre v' where a: "html = pre @ ?K @ v' @ rest'" "v' \<noteq> []"
      "\<forall>c\<in>set v'. c \<noteq> CHR 0x22" "rest' = [] \<or> \<not> hd rest' \<noteq> CHR 0x22" "gs = [(Suc 0, v')]"
      "\<forall>pre' c post'. html = pre' @ ?K @ c # post' \<and> c \<noteq> CHR 0x22 \<longrightarrow> length pre \<le> length pre'"
      by blast
    from g a(5) have "v' = v" by simp
    with a show ?R by blast
  next
    assume ?R
    then obtain pre post where R: "html = pre @ ?K @ v @ post"
      "v \<noteq> []" "\<forall>c\<in>set v. c \<noteq> CHR 0x22" "post = [] \<or> hd post = CHR 0x22"
      "\<forall>pre' c post'. html = pre' @ ?K @ c # post' \<and> c \<noteq> CHR 0x22 \<longrightarrow> length pre \<le> length pre'"
      by blast
    then have "post = [] \<or> \<not> hd post \<noteq> CHR 0x22" by blast
    with R have "search_from True ?r False None html = Some (?K @ v @ post, Some (last v), post, [(Suc 0, v)])"
      unfolding some by blast
    then show ?L unfolding extract_timestamp_search by simp
  qed
  have total: "extract_timestamp html = Inl (FatalError ''unable to fetch timestamp'')
        \<or> (\<exists>v. extract_timestamp html = Inr (Some v))"
  proof (cases "search_from True ?r False None html")
    case None
    then show ?thesis unfolding extract_timestamp_search by simp
  next
    case (Some x)
    then obtain start p' rest' gs where
      s: "search_from True ?r False None html = Some (start, p', rest', gs)"
      by (cases x) auto
    from s[unfolded some] obtain v where "gs = [(Suc 0, v)]" by blast
    with s show ?thesis unfolding extract_timestamp_search by simp
  qed
  have example: \<open>extract_timestamp ''<input name="ts" value="16933221">'' = Inr (Some ''16933221'')\<close>
    by code_simp
  show ?thesis
    by (intro conjI) (fact fatal, fact found, fact total, fact example)
qed


theorem extract_timestamp_spec_witness:
  \<open>\<exists>pre post. ''<p>ts</p><input type="hidden" name="ts" value="2011-05-14 08:01:22" />''
       = pre @ ''name="ts" value="'' @ ''2011-05-14 08:01:22'' @ post
     \<and> (post = [] \<or> hd post = CHR 0x22)\<close>
proof -
  have e: \<open>extract_timestamp ''<p>ts</p><input type="hidden" name="ts" value="2011-05-14 08:01:22" />''
      = Inr (Some ''2011-05-14 08:01:22'')\<close>
    by code_simp
  note spec = extract_timestamp_spec[of
      \<open>''<p>ts</p><input type="hidden" name="ts" value="2011-05-14 08:01:22" />''\<close>
      \<open>''2011-05-14 08:01:22''\<close>, THEN conjunct2, THEN conjunct1]
  from iffD1[OF spec e] obtain pre post where
    a: \<open>''<p>ts</p><input type="hidden" name="ts" value="2011-05-14 08:01:22" />''
       = pre @ ''name="ts" value="'' @ ''2011-05-14 08:01:22'' @ post\<close>
    and b: \<open>post = [] \<or> hd post = CHR 0x22\<close>
    by (elim exE conjE)
  show ?thesis
    by (rule exI[of _ pre], rule exI[of _ post], rule conjI, fact a, fact b)
qed

text \<open>
  C5 as the claim has it fails where the field is there and its value is empty: the
  source raises the fatal error for \<^verbatim>\<open><input name="ts" value="">\<close>.
\<close>

theorem extract_timestamp_empty_value:
  \<open>extract_timestamp ''<input name="ts" value="">''
     = Inl (FatalError ''unable to fetch timestamp'')\<close>
  by code_simp

section \<open>Properties of \<^verbatim>\<open>extract_properties\<close>\<close>






subsection \<open>Occurrences, and a repeated class before something that cannot start in the class\<close>

lemma search_occ:
  assumes fm: "\<And>p s. first_match ml r False p s = (if occ s then Some (res s) else None)"
  shows search_occ_None:
    "search_from ml r False p0 html = None \<longleftrightarrow> \<not> (\<exists>pre post. html = pre @ post \<and> occ post)"
  and search_occ_Some:
    "search_from ml r False p0 html = Some (start, st) \<longleftrightarrow>
       (\<exists>pre. html = pre @ start \<and> occ start \<and> st = res start
          \<and> (\<forall>pre' post'. html = pre' @ post' \<and> occ post' \<longrightarrow> length pre \<le> length pre'))"
proof -
  show "search_from ml r False p0 html = None \<longleftrightarrow> \<not> (\<exists>pre post. html = pre @ post \<and> occ post)"
    unfolding search_from_None fm by auto
  show "search_from ml r False p0 html = Some (start, st) \<longleftrightarrow>
       (\<exists>pre. html = pre @ start \<and> occ start \<and> st = res start
          \<and> (\<forall>pre' post'. html = pre' @ post' \<and> occ post' \<longrightarrow> length pre \<le> length pre'))"
    (is "?L \<longleftrightarrow> ?R")
  proof
    assume ?L
    then obtain pre where html: "html = pre @ start"
      and m: "(if occ start then Some (res start) else None) = Some st"
      and early: "\<forall>pre' post'. html = pre' @ post' \<and> length pre' < length pre \<longrightarrow>
              (if occ post' then Some (res post') else None) = None"
      unfolding search_from_Some fm by blast
    from m have occ: "occ start" and st: "st = res start"
      by (auto split: if_splits)
    have "\<forall>pre' post'. html = pre' @ post' \<and> occ post' \<longrightarrow> length pre \<le> length pre'"
    proof (intro allI impI)
      fix pre' post' assume a: "html = pre' @ post' \<and> occ post'"
      show "length pre \<le> length pre'"
      proof (rule ccontr)
        assume "\<not> length pre \<le> length pre'"
        then have "length pre' < length pre" by simp
        with a have "html = pre' @ post' \<and> length pre' < length pre" by blast
        with early have "(if occ post' then Some (res post') else None) = None" by blast
        with a show False by simp
      qed
    qed
    with html occ st show ?R by blast
  next
    assume ?R
    then obtain pre where html: "html = pre @ start" and occ: "occ start" and st: "st = res start"
      and first: "\<forall>pre' post'. html = pre' @ post' \<and> occ post' \<longrightarrow> length pre \<le> length pre'"
      by blast
    have "\<forall>pre' post'. html = pre' @ post' \<and> length pre' < length pre \<longrightarrow>
              (if occ post' then Some (res post') else None) = None"
    proof (intro allI impI)
      fix pre' post' assume a: "html = pre' @ post' \<and> length pre' < length pre"
      with first have "\<not> occ post'" by force
      then show "(if occ post' then Some (res post') else None) = None" by simp
    qed
    with html occ st show ?L
      unfolding search_from_Some fm by (intro exI[of _ pre]) simp
  qed
qed







section \<open>Properties of \<^verbatim>\<open>extract_trac_version\<close>\<close>
























end
